theory Spec2Isabelle
  imports Main "HOL-Library.Sublist"
begin

section \<open>The ShARC-Net dataset reader (orca/dataset_readers/sharc\_net.py)\<close>

text \<open>
  A shallow embedding of \<^verbatim>\<open>ShARCNetDatasetReader\<close>: the aligner
  \<^verbatim>\<open>_tokens_to_ids\<close>, the rule normaliser \<^verbatim>\<open>modify_rule\<close> with its helpers, the
  instance assembly \<^verbatim>\<open>text_to_instance\<close> and the record loop \<^verbatim>\<open>_read\<close>.

  Python strings are modelled as \<^typ>\<open>string\<close> (lists of characters), Python lists as HOL
  lists, dictionaries as maps or association lists, \<^verbatim>\<open>None\<close> as \<^const>\<open>None\<close>, and every
  exception the code can raise as a value of the type \<open>error\<close> below.
\<close>

subsection \<open>Strings, slices and the Python built-ins the reader calls\<close>

definition nl :: char where
  \<comment> \<open>the newline character, Python's \<^verbatim>\<open>'\n'\<close>\<close>
  "nl = CHR 0x0A"

definition upper_letters :: string where
  "upper_letters = ''ABCDEFGHIJKLMNOPQRSTUVWXYZ''"

definition lower_letters :: string where
  "lower_letters = ''abcdefghijklmnopqrstuvwxyz''"

definition lower_char :: "char \<Rightarrow> char" where
  "lower_char c = (case map_of (zip upper_letters lower_letters) c of Some d \<Rightarrow> d | None \<Rightarrow> c)"

definition lower :: "string \<Rightarrow> string" where
  \<comment> \<open>\<^verbatim>\<open>str.lower()\<close> on the ASCII letters; every other character is kept.  The general
      theorems below use only that \<open>lower\<close> is a function, not what it does to a character.\<close>
  "lower s = map lower_char s"

definition norm_index :: "nat \<Rightarrow> int \<Rightarrow> nat" where
  \<comment> \<open>how a slice bound is clamped into \<open>0..n\<close>: a negative bound counts from the end\<close>
  "norm_index n i = (if i < 0 then nat (max 0 (int n + i)) else min n (nat i))"

definition py_slice :: "'a list \<Rightarrow> int option \<Rightarrow> int option \<Rightarrow> 'a list" where
  \<comment> \<open>\<^verbatim>\<open>xs[lo:hi]\<close> with step 1; an omitted bound is \<open>None\<close>.  A slice never raises.\<close>
  "py_slice xs lo hi =
     (let n = length xs;
          a = (case lo of None \<Rightarrow> 0 | Some i \<Rightarrow> norm_index n i);
          b = (case hi of None \<Rightarrow> n | Some j \<Rightarrow> norm_index n j)
      in take (b - a) (drop a xs))"

fun py_find :: "string \<Rightarrow> string \<Rightarrow> int" where
  \<comment> \<open>\<^verbatim>\<open>s.find(sub)\<close>: the lowest index where \<open>sub\<close> starts, or \<open>-1\<close>\<close>
  "py_find [] sub = (if sub = [] then 0 else - 1)"
| "py_find (c # cs) sub =
     (if prefix sub (c # cs) then 0
      else (let r = py_find cs sub in if r = - 1 then - 1 else r + 1))"

fun str_in :: "string \<Rightarrow> string \<Rightarrow> bool" where
  \<comment> \<open>\<^verbatim>\<open>sub in s\<close> on strings: \<open>sub\<close> occurs as a contiguous substring of \<open>s\<close>\<close>
  "str_in sub [] = (sub = [])"
| "str_in sub (c # cs) = (prefix sub (c # cs) \<or> str_in sub cs)"

fun split_on :: "char \<Rightarrow> string \<Rightarrow> string list" where
  \<comment> \<open>\<^verbatim>\<open>s.split(sep)\<close> for a one-character separator: empty pieces are kept\<close>
  "split_on sep [] = [[]]"
| "split_on sep (c # cs) =
     (if c = sep then [] # split_on sep cs
      else (case split_on sep cs of [] \<Rightarrow> [[c]] | p # ps \<Rightarrow> (c # p) # ps))"

subsection \<open>Tokens and the aligner\<close>

datatype token = Token (text_of: string)
  \<comment> \<open>an allennlp \<^verbatim>\<open>Token\<close>; only its \<^verbatim>\<open>text\<close> attribute is read by the reader (the selector is
      \<open>text_of\<close> because \<open>text\<close> is a reserved word)\<close>

definition START_SYMBOL :: string where
  \<comment> \<open>\<^verbatim>\<open>allennlp.common.util.START_SYMBOL\<close>\<close>
  "START_SYMBOL = ''@start@''"

definition END_SYMBOL :: string where
  \<comment> \<open>\<^verbatim>\<open>allennlp.common.util.END_SYMBOL\<close>\<close>
  "END_SYMBOL = ''@end@''"

type_synonym ids_dict = "(string \<times> nat) list"
  \<comment> \<open>the local \<^verbatim>\<open>ids: Dict[str, int]\<close>, in insertion order; \<^verbatim>\<open>len(ids)\<close> is its length\<close>

definition setdefault :: "ids_dict \<Rightarrow> string \<Rightarrow> nat \<Rightarrow> ids_dict \<times> nat" where
  \<comment> \<open>\<^verbatim>\<open>ids.setdefault(key, default)\<close>: the updated dictionary and the value returned\<close>
  "setdefault ids key d =
     (case map_of ids key of
        Some v \<Rightarrow> (ids, v)
      | None \<Rightarrow> (ids @ [(key, d)], d))"

fun tokens_to_ids_loop :: "ids_dict \<Rightarrow> nat list \<Rightarrow> token list \<Rightarrow> nat list" where
  \<comment> \<open>the \<^verbatim>\<open>for token in tokens\<close> loop, on the state \<open>(ids, out)\<close>\<close>
  "tokens_to_ids_loop ids out [] = out"
| "tokens_to_ids_loop ids out (t # ts) =
     (case setdefault ids (lower (text_of t)) (length ids) of
        (ids', v) \<Rightarrow> tokens_to_ids_loop ids' (out @ [v]) ts)"

definition tokens_to_ids :: "token list \<Rightarrow> nat list" where
  "tokens_to_ids tokens = tokens_to_ids_loop [] [] tokens"

subsection \<open>The structural pattern of \<^verbatim>\<open>modify_rule\<close>\<close>

text \<open>
  \<^verbatim>\<open>modify_rule\<close> compiles the pattern
  \<^verbatim>\<open>(.*?)\n*^(.+):\n\n((?:^\* .+\n*)+)\<close> with \<^verbatim>\<open>re.MULTILINE\<close> and calls
  \<^verbatim>\<open>pattern.search(rule)\<close>.  Python's \<^verbatim>\<open>re\<close> is a backtracking matcher: the parts of the
  pattern are matched from left to right, a greedy quantifier tries the longest repetition
  first and a lazy one the shortest, and the first complete match in that order is the
  result.  Each part of the pattern is a function below that takes its continuation \<open>k\<close>
  (the rest of the pattern), the flag \<open>bol\<close> (the position is at the start of the string or
  right after a newline, which is where \<^verbatim>\<open>^\<close> matches under \<^verbatim>\<open>MULTILINE\<close>) and the text
  not yet consumed.  Without \<^verbatim>\<open>DOTALL\<close>, \<^verbatim>\<open>.\<close> matches every character but the newline.
\<close>

fun lazy_dots ::
  "(string \<Rightarrow> bool \<Rightarrow> string \<Rightarrow> 'a option) \<Rightarrow> string \<Rightarrow> bool \<Rightarrow> string \<Rightarrow> 'a option" where
  \<comment> \<open>the group \<^verbatim>\<open>(.*?)\<close>: first the rest of the pattern with what is captured so far
      (\<open>acc\<close>), and only when that fails one more character\<close>
  "lazy_dots k acc bol [] = k acc bol []"
| "lazy_dots k acc bol (c # cs) =
     (case k acc bol (c # cs) of
        Some r \<Rightarrow> Some r
      | None \<Rightarrow> if c = nl then None else lazy_dots k (acc @ [c]) False cs)"

fun greedy_nls :: "(bool \<Rightarrow> string \<Rightarrow> 'a option) \<Rightarrow> bool \<Rightarrow> string \<Rightarrow> 'a option" where
  \<comment> \<open>\<^verbatim>\<open>\n*\<close>: first one more newline, and only when that fails the rest of the pattern\<close>
  "greedy_nls k bol [] = k bol []"
| "greedy_nls k bol (c # cs) =
     (if c = nl
      then (case greedy_nls k True cs of Some r \<Rightarrow> Some r | None \<Rightarrow> k bol (c # cs))
      else k bol (c # cs))"

definition at_bol :: "(bool \<Rightarrow> string \<Rightarrow> 'a option) \<Rightarrow> bool \<Rightarrow> string \<Rightarrow> 'a option" where
  \<comment> \<open>\<^verbatim>\<open>^\<close> under \<^verbatim>\<open>MULTILINE\<close>\<close>
  "at_bol k bol s = (if bol then k bol s else None)"

fun greedy_dots ::
  "(string \<Rightarrow> bool \<Rightarrow> string \<Rightarrow> 'a option) \<Rightarrow> string \<Rightarrow> bool \<Rightarrow> string \<Rightarrow> 'a option" where
  \<comment> \<open>the group \<^verbatim>\<open>(.+)\<close>: one character, then first one more, and only when that fails
      the rest of the pattern\<close>
  "greedy_dots k acc bol [] = None"
| "greedy_dots k acc bol (c # cs) =
     (if c = nl then None
      else (case greedy_dots k (acc @ [c]) False cs of
              Some r \<Rightarrow> Some r
            | None \<Rightarrow> k (acc @ [c]) False cs))"

definition literal :: "string \<Rightarrow> (string \<Rightarrow> 'a option) \<Rightarrow> string \<Rightarrow> 'a option" where
  \<comment> \<open>a literal piece of the pattern\<close>
  "literal w k s = (if prefix w s then k (drop (length w) s) else None)"

definition bullet_line :: "bool \<Rightarrow> string \<Rightarrow> (string \<times> string) option" where
  \<comment> \<open>one repetition \<^verbatim>\<open>^\* .+\n*\<close> of the last group, with its greedy choices: what it
      matches and what is left.  The pattern ends with this group, so the rest of the
      pattern never fails after a repetition and the longest choices are never given up.\<close>
  "bullet_line bol s =
     (if bol \<and> prefix ''* '' s
      then (let t = drop 2 s;
                item = takeWhile (\<lambda>c. c \<noteq> nl) t;
                r = dropWhile (\<lambda>c. c \<noteq> nl) t
            in if item = [] then None
               else Some (''* '' @ item @ takeWhile (\<lambda>c. c = nl) r, dropWhile (\<lambda>c. c = nl) r))
      else None)"

function bullet_lines :: "bool \<Rightarrow> string \<Rightarrow> string" where
  \<comment> \<open>\<^verbatim>\<open>(?:^\* .+\n*)+\<close>, greedy: repetitions as long as one more matches; the text matched
      (empty when not even one repetition matches)\<close>
  "bullet_lines bol s =
     (case bullet_line bol s of
        None \<Rightarrow> []
      | Some (m, r) \<Rightarrow> m @ bullet_lines (last m = nl) r)"
  by pat_completeness auto
termination
proof (relation "measure (\<lambda>(bol, s). length s)")
  show "wf (measure (\<lambda>(bol, s). length s))" by simp
next
  fix bol :: bool and s :: string and mr :: "string \<times> string" and m r :: string
  assume some: "bullet_line bol s = Some mr" and mr: "(m, r) = mr"
  from some have pre: "prefix ''* '' s"
    by (simp add: bullet_line_def split: if_splits)
  then obtain t where s: "s = ''* '' @ t"
    by (auto simp: prefix_def)
  from some mr pre s have "r = dropWhile (\<lambda>c. c = nl) (dropWhile (\<lambda>c. c \<noteq> nl) t)"
    by (auto simp: bullet_line_def Let_def split: if_splits)
  moreover have "length (dropWhile (\<lambda>c. c = nl) (dropWhile (\<lambda>c. c \<noteq> nl) t)) \<le> length t"
    by (meson length_dropWhile_le order_trans)
  ultimately have "length r < length s"
    using s by simp
  then show "((last m = nl, r), (bol, s)) \<in> measure (\<lambda>(bol, s). length s)"
    by simp
qed

definition match_here :: "bool \<Rightarrow> string \<Rightarrow> (string \<times> string \<times> string) option" where
  \<comment> \<open>one attempt of the whole pattern at a position: the groups 1, 2 and 3 of the match\<close>
  "match_here bol s =
     lazy_dots (\<lambda>g1.
       greedy_nls (
         at_bol (
           greedy_dots (\<lambda>g2 b.
             literal ([CHR '':'', nl, nl]) (\<lambda>r.
               (case bullet_lines True r of
                  [] \<Rightarrow> None
                | c # cs \<Rightarrow> Some (g1, g2, c # cs)))) []))) [] bol s"

fun search_from :: "bool \<Rightarrow> string \<Rightarrow> (string \<times> string \<times> string) option" where
  \<comment> \<open>\<^verbatim>\<open>pattern.search\<close>: the attempts at every position from left to right, the end of
      the string included; the first that succeeds is the match\<close>
  "search_from bol [] = match_here bol []"
| "search_from bol (c # cs) =
     (case match_here bol (c # cs) of
        Some m \<Rightarrow> Some m
      | None \<Rightarrow> search_from (c = nl) cs)"

definition search :: "string \<Rightarrow> (string \<times> string \<times> string) option" where
  \<comment> \<open>\<^verbatim>\<open>pattern.search(rule)\<close>: \<open>None\<close>, or the groups 1, 2 and 3 of the match\<close>
  "search rule = search_from True rule"

subsection \<open>\<^verbatim>\<open>find_from_last\<close>, \<^verbatim>\<open>split_last_sentence\<close> and \<^verbatim>\<open>modify_rule\<close>\<close>

definition find_from_last :: "string \<Rightarrow> string \<Rightarrow> int" where
  \<comment> \<open>\<^verbatim>\<open>string[::-1]\<close> is the reversed string\<close>
  "find_from_last string substring =
     (let index_back = py_find (rev string) substring
      in if index_back = - 1 then - 1
         else int (length string) - index_back - 1)"

definition split_last_sentence :: "string \<Rightarrow> string \<times> string" where
  "split_last_sentence sentences =
     (let index = find_from_last sentences ''.''
      in if index = - 1 then ([], sentences)
         else (py_slice sentences None (Some (index + 1)),
               py_slice sentences (Some (index + 2)) None))"

definition exclude_words :: "string list" where
  \<comment> \<open>the list literal \<^verbatim>\<open>['#,' 'both', 'following', 'either', 'including', 'include']\<close>:
      Python joins the two adjacent string literals \<^verbatim>\<open>'#,' 'both'\<close> into one string\<close>
  "exclude_words = [''#,both'', ''following'', ''either'', ''including'', ''include'']"

definition modify_rule :: "string \<Rightarrow> string" where
  "modify_rule rule =
     (case search rule of
        None \<Rightarrow> rule
      | Some (group1, group2, group3) \<Rightarrow>
          (let pretext = group1;
               condition = group2;
               (pretext2, condition) = split_last_sentence condition;
               pretext = pretext @ [nl] @ pretext2
           in if list_ex (\<lambda>word. str_in word condition) exclude_words then rule
              else (let bullets = group3;
                        bullets_list =
                          map (\<lambda>a. condition @ '' '' @ py_slice a (Some 2) None @ [CHR ''.'', nl])
                            (split_on nl bullets)
                    in pretext @ [nl] @ concat bullets_list)))"

subsection \<open>Instances\<close>

datatype error = KeyError string | UnboundLocalError string

type_synonym str_dict = "(string \<times> string) list"
  \<comment> \<open>a JSON object with string values, such as one turn of the history\<close>

datatype indexers = Source_token_indexers | Target_token_indexers | Bidaf_token_indexers

record metadata =
  meta_source_tokens :: "string list"
  meta_target_tokens :: "string list option"
  meta_rule_text :: string
  meta_question :: string
  meta_scenario :: string
  meta_history :: "str_dict list"

datatype field =
    TextField "token list" indexers
  | NamespaceSwappingField "token list" string
  | ArrayField "nat list"
  | LabelField string
  | MetadataField metadata

datatype Instance = Instance (instance_fields: "string \<rightharpoonup> field")
  \<comment> \<open>\<^verbatim>\<open>Instance(fields_dict)\<close>: the dictionary from field names to fields\<close>

record reader =
  target_namespace :: string
  bidaf_tokenizer :: "string \<Rightarrow> token list"
  source_tokenizer :: "string \<Rightarrow> token list"
  target_tokenizer :: "string \<Rightarrow> token list"

definition getitem :: "str_dict \<Rightarrow> string \<Rightarrow> error + string" where
  \<comment> \<open>\<^verbatim>\<open>d[key]\<close>, which raises \<^verbatim>\<open>KeyError\<close> on a missing key\<close>
  "getitem d key = (case map_of d key of None \<Rightarrow> Inl (KeyError key) | Some v \<Rightarrow> Inr v)"

fun source_history :: "string \<Rightarrow> str_dict list \<Rightarrow> error + string" where
  \<comment> \<open>the first \<^verbatim>\<open>for follow_up_qna in history\<close> loop, on \<^verbatim>\<open>source_string\<close>\<close>
  "source_history source_string [] = Inr source_string"
| "source_history source_string (follow_up_qna # history) =
     (case getitem follow_up_qna ''follow_up_question'' of
        Inl e \<Rightarrow> Inl e
      | Inr q \<Rightarrow> source_history (source_string @ q @ '' '') history)"

fun question_history :: "string \<Rightarrow> str_dict list \<Rightarrow> error + string" where
  \<comment> \<open>the second \<^verbatim>\<open>for follow_up_qna in history\<close> loop, on \<^verbatim>\<open>question_text\<close>\<close>
  "question_history question_text [] = Inr question_text"
| "question_history question_text (follow_up_qna # history) =
     (case getitem follow_up_qna ''follow_up_question'' of
        Inl e \<Rightarrow> Inl e
      | Inr q \<Rightarrow>
          (case getitem follow_up_qna ''follow_up_answer'' of
             Inl e \<Rightarrow> Inl e
           | Inr a \<Rightarrow>
               question_history (question_text @ ''@@QS@@ '' @ q @ '' '' @ a @ '' '') history))"

definition wrap_source :: "reader \<Rightarrow> string \<Rightarrow> token list" where
  \<comment> \<open>\<^verbatim>\<open>tokenized_source\<close> after \<^verbatim>\<open>insert(0, Token(START_SYMBOL))\<close> and
      \<^verbatim>\<open>append(Token(END_SYMBOL))\<close>\<close>
  "wrap_source self source_string =
     Token START_SYMBOL # source_tokenizer self source_string @ [Token END_SYMBOL]"

definition wrap_target :: "reader \<Rightarrow> string \<Rightarrow> token list" where
  \<comment> \<open>\<^verbatim>\<open>tokenized_target\<close> after the same two calls\<close>
  "wrap_target self target_string =
     Token START_SYMBOL # target_tokenizer self target_string @ [Token END_SYMBOL]"

definition aligner_tokens :: "token list \<Rightarrow> token list option \<Rightarrow> token list" where
  \<comment> \<open>the argument of the call of \<^verbatim>\<open>_tokens_to_ids\<close>:
      \<^verbatim>\<open>tokenized_source[1:-1] + tokenized_target\<close> when there is a target,
      \<^verbatim>\<open>tokenized_source[1:-1]\<close> when there is none\<close>
  "aligner_tokens tokenized_source tokenized_target =
     (case tokenized_target of
        Some tt \<Rightarrow> py_slice tokenized_source (Some 1) (Some (- 1)) @ tt
      | None \<Rightarrow> py_slice tokenized_source (Some 1) (Some (- 1)))"

definition text_to_instance ::
  "reader \<Rightarrow> string \<Rightarrow> string \<Rightarrow> string \<Rightarrow> str_dict list \<Rightarrow> string option \<Rightarrow> string option \<Rightarrow>
   string option \<Rightarrow> string option \<Rightarrow> str_dict list option \<Rightarrow> error + Instance option" where
  \<comment> \<open>the result type is \<^verbatim>\<open>Optional[Instance]\<close>; \<open>Inl\<close> is an exception raised on the way\<close>
  "text_to_instance self rule_text question scenario history utterance_id tree_id source_url
     answer evidence =
     (case source_history ('' @@RS@@ '' @ rule_text @ '' @@RE@@ '') history of
        Inl e \<Rightarrow> Inl e
      | Inr source_string \<Rightarrow>
          (let target_string = answer;
               tokenized_source = wrap_source self source_string;
               source_field = TextField tokenized_source Source_token_indexers;
               source_to_target_field =
                 NamespaceSwappingField (py_slice tokenized_source (Some 1) (Some (- 1)))
                   (target_namespace self);
               meta_fields = \<lparr>
                 meta_source_tokens =
                   map text_of (py_slice tokenized_source (Some 1) (Some (- 1))),
                 meta_target_tokens = None,
                 meta_rule_text = rule_text,
                 meta_question = question,
                 meta_scenario = scenario,
                 meta_history = history \<rparr>;
               fields_dict = [''source_tokens'' \<mapsto> source_field,
                              ''source_to_target'' \<mapsto> source_to_target_field];
               passage_text = rule_text
           in case question_history
                     (''@@QS@@ '' @ question @ '' @@SS@@ '' @ scenario @ '' @@HS@@ '') history of
                Inl e \<Rightarrow> Inl e
              | Inr question_text \<Rightarrow>
                  (let question_text = question_text @ ''@@HE@@'';
                       passage_tokens = bidaf_tokenizer self passage_text;
                       question_tokens = bidaf_tokenizer self question_text;
                       fields_dict = fields_dict
                         (''passage'' \<mapsto> TextField passage_tokens Bidaf_token_indexers,
                          ''question'' \<mapsto> TextField question_tokens Bidaf_token_indexers)
                   in case target_string of
                        Some target_string \<Rightarrow>
                          (let tokenized_target = wrap_target self target_string;
                               target_field = TextField tokenized_target Target_token_indexers;
                               meta_fields = meta_fields \<lparr> meta_target_tokens :=
                                 Some (map text_of
                                   (py_slice tokenized_target (Some 1) (Some (- 1)))) \<rparr>;
                               source_and_target_token_ids =
                                 tokens_to_ids
                                   (aligner_tokens tokenized_source (Some tokenized_target));
                               source_token_ids =
                                 py_slice source_and_target_token_ids None
                                   (Some (int (length tokenized_source) - 2));
                               target_token_ids =
                                 py_slice source_and_target_token_ids
                                   (Some (int (length tokenized_source) - 2)) None;
                               action =
                                 (if target_string \<notin> set [''Yes'', ''No'', ''Irrelevant'']
                                  then ''More'' else target_string)
                           in Inr (Some (Instance (fields_dict
                                (''target_tokens'' \<mapsto> target_field,
                                 ''source_token_ids'' \<mapsto> ArrayField source_token_ids,
                                 ''target_token_ids'' \<mapsto> ArrayField target_token_ids,
                                 ''label'' \<mapsto> LabelField action,
                                 ''metadata'' \<mapsto> MetadataField meta_fields)))))
                      | None \<Rightarrow>
                          (let source_token_ids =
                                 tokens_to_ids (aligner_tokens tokenized_source None)
                           in Inr (Some (Instance (fields_dict
                                (''source_token_ids'' \<mapsto> ArrayField source_token_ids,
                                 ''metadata'' \<mapsto> MetadataField meta_fields))))))))"

subsection \<open>The record loop \<^verbatim>\<open>_read\<close>\<close>








subsection \<open>Notions used in the statements and proofs\<close>

definition key :: "token \<Rightarrow> string" where
  \<comment> \<open>the dictionary key of a token, \<^verbatim>\<open>token.text.lower()\<close>\<close>
  "key t = lower (text_of t)"

definition rank :: "string list \<Rightarrow> string \<Rightarrow> nat" where
  \<comment> \<open>how many different keys come before the first occurrence of \<open>k\<close> in \<open>ks\<close>\<close>
  "rank ks k = card (set (takeWhile (\<lambda>x. x \<noteq> k) ks))"

definition ids_inv :: "ids_dict \<Rightarrow> bool" where
  \<comment> \<open>the invariant of the dictionary \<^verbatim>\<open>ids\<close>: its keys are distinct and the \<open>n\<close>-th key
      inserted has the value \<open>n\<close>\<close>
  "ids_inv ids \<longleftrightarrow> distinct (map fst ids) \<and> map snd ids = [0..<length ids]"

primrec ends_line :: "bool \<Rightarrow> string \<Rightarrow> bool" where
  \<comment> \<open>the flag \<open>bol\<close> after the text \<open>s\<close> has been consumed\<close>
  "ends_line bol [] = bol"
| "ends_line bol (c # cs) = ends_line (c = nl) cs"

definition pattern_occurs :: "string \<Rightarrow> bool" where
  \<comment> \<open>the structure that the pattern recognises, said without the matcher: somewhere a line
      begins, a non-empty label without a newline follows, then a colon that ends the line,
      an empty line, and a line that starts with \<^verbatim>\<open>* \<close> and has one more character\<close>
  "pattern_occurs rule \<longleftrightarrow>
     (\<exists>pre label c rest.
        rule = pre @ label @ [CHR '':'', nl, nl] @ ''* '' @ c # rest \<and>
        (pre = [] \<or> last pre = nl) \<and> label \<noteq> [] \<and> nl \<notin> set label \<and> c \<noteq> nl)"

definition wf_history :: "str_dict list \<Rightarrow> bool" where
  \<comment> \<open>a well-formed history: every turn has the two keys of the input schema\<close>
  "wf_history history \<longleftrightarrow>
     list_all (\<lambda>turn. map_of turn ''follow_up_question'' \<noteq> None \<and>
                      map_of turn ''follow_up_answer'' \<noteq> None) history"

definition flattened :: "string \<Rightarrow> string \<Rightarrow> string \<Rightarrow> string" where
  \<comment> \<open>the text that \<^verbatim>\<open>modify_rule\<close> builds from the three groups of a match when no
      word of \<open>exclude_words\<close> stops it\<close>
  "flattened group1 group2 group3 =
     group1 @ [nl] @ fst (split_last_sentence group2) @ [nl] @
     concat (map (\<lambda>a. snd (split_last_sentence group2) @ '' '' @ drop 2 a @ [CHR ''.'', nl])
               (split_on nl group3))"

definition excluded :: "string \<Rightarrow> bool" where
  \<comment> \<open>the test of the \<^verbatim>\<open>for word in exclude_words\<close> loop on the condition that
      \<^verbatim>\<open>split_last_sentence\<close> leaves of group 2\<close>
  "excluded group2 \<longleftrightarrow>
     (\<exists>word\<in>set exclude_words. str_in word (snd (split_last_sentence group2)))"

definition whitespace_tokenizer :: "string \<Rightarrow> token list" where
  \<comment> \<open>a tokenizer to run the reader on examples: the words between spaces\<close>
  "whitespace_tokenizer s = map Token (filter (\<lambda>w. w \<noteq> []) (split_on (CHR '' '') s))"

definition sample_reader :: reader where
  \<comment> \<open>a reader for the examples, with that tokenizer in its three places\<close>
  "sample_reader = \<lparr> target_namespace = ''target_tokens'',
      bidaf_tokenizer = whitespace_tokenizer,
      source_tokenizer = whitespace_tokenizer,
      target_tokenizer = whitespace_tokenizer \<rparr>"

definition result_field :: "error + Instance option \<Rightarrow> string \<Rightarrow> field option" where
  \<comment> \<open>the field \<open>name\<close> of the instance returned, \<open>None\<close> when there is no such field or no
      instance\<close>
  "result_field r name =
     (case r of Inr (Some inst) \<Rightarrow> instance_fields inst name | _ \<Rightarrow> None)"






declare bullet_lines.simps [simp del]

section \<open>The aligner\<close>

lemma takeWhile_neq_distinct:
  assumes "distinct K" "i < length K"
  shows "takeWhile (\<lambda>x. x \<noteq> K ! i) (K @ ks) = take i K"
proof -
  have "takeWhile (\<lambda>x. x \<noteq> K ! i) (K @ ks) = take i (K @ ks)"
  proof (rule takeWhile_eq_take_P_nth)
    fix j assume j: "j < i" "j < length (K @ ks)"
    then have "(K @ ks) ! j = K ! j" using assms(2) by (simp add: nth_append)
    moreover have "K ! j \<noteq> K ! i"
      using assms j by (simp add: nth_eq_iff_index_eq)
    ultimately show "(K @ ks) ! j \<noteq> K ! i" by simp
  next
    show "\<not> (K @ ks) ! i \<noteq> K ! i" using assms(2) by (simp add: nth_append)
  qed
  then show ?thesis using assms(2) by simp
qed

lemma ids_inv_lookup:
  assumes "ids_inv ids" "map_of ids k = Some v"
  shows "v = rank (map fst ids @ ks) k"
proof -
  define K where "K = map fst ids"
  from assms(2) have "(k, v) \<in> set ids" by (rule map_of_SomeD)
  then obtain i where i: "i < length ids" "ids ! i = (k, v)" by (auto simp: in_set_conv_nth)
  have "map snd ids ! i = v" using i by simp
  moreover have "map snd ids ! i = i" using assms(1) i by (simp add: ids_inv_def)
  ultimately have v: "v = i" by simp
  have d: "distinct K" using assms(1) by (simp add: ids_inv_def K_def)
  have ki: "K ! i = k" and iK: "i < length K" using i by (simp_all add: K_def)
  have tw: "takeWhile (\<lambda>x. x \<noteq> k) (K @ ks) = take i K"
    using takeWhile_neq_distinct[OF d iK] ki by simp
  have "card (set (take i K)) = i"
    using d iK by (simp add: distinct_card distinct_take)
  then show ?thesis using tw v by (simp add: rank_def K_def)
qed

lemma rank_fresh:
  assumes "distinct K" "k \<notin> set K"
  shows "rank (K @ k # ks) k = length K"
proof -
  have "takeWhile (\<lambda>x. x \<noteq> k) (K @ k # ks) = K"
    using assms(2) by (induction K) auto
  then show ?thesis using assms(1) by (simp add: rank_def distinct_card)
qed

lemma rank_skip_known:
  assumes "k \<in> set K"
  shows "rank (K @ k # ks) x = rank (K @ ks) x"
proof (cases "x \<in> set K")
  case True
  then show ?thesis by (simp add: rank_def takeWhile_append1)
next
  case False
  then have nk: "x \<noteq> k" using assms by auto
  have a: "takeWhile (\<lambda>y. y \<noteq> x) (K @ k # ks) = K @ k # takeWhile (\<lambda>y. y \<noteq> x) ks"
    using False nk by (induction K) auto
  have b: "takeWhile (\<lambda>y. y \<noteq> x) (K @ ks) = K @ takeWhile (\<lambda>y. y \<noteq> x) ks"
    using False by (induction K) auto
  have "set (K @ k # takeWhile (\<lambda>y. y \<noteq> x) ks) = set (K @ takeWhile (\<lambda>y. y \<noteq> x) ks)"
    using assms by auto
  then show ?thesis by (simp only: rank_def a b)
qed

lemma tokens_to_ids_loop_rank:
  assumes "ids_inv ids"
  shows "tokens_to_ids_loop ids out ts =
         out @ map (\<lambda>t. rank (map fst ids @ map key ts) (key t)) ts"
  using assms
proof (induction ts arbitrary: ids out)
  case Nil
  then show ?case by simp
next
  case (Cons t ts)
  show ?case
  proof (cases "map_of ids (key t)")
    case None
    then have fresh: "key t \<notin> set (map fst ids)"
      by (simp add: map_of_eq_None_iff)
    have d: "distinct (map fst ids)" using Cons.prems by (simp add: ids_inv_def)
    have inv': "ids_inv (ids @ [(key t, length ids)])"
      using Cons.prems fresh by (simp add: ids_inv_def)
    have r: "rank (map fst ids @ key t # map key ts) (key t) = length ids"
      using rank_fresh[OF d fresh] by simp
    show ?thesis
      using None Cons.IH[OF inv'] r
      by (simp add: setdefault_def key_def[symmetric])
  next
    case (Some v)
    then have known: "key t \<in> set (map fst ids)"
      by (metis map_of_eq_None_iff option.distinct(1) set_map)
    have v: "v = rank (map fst ids @ key t # map key ts) (key t)"
      using ids_inv_lookup[OF Cons.prems Some] .
    show ?thesis
      using Some Cons.IH[OF Cons.prems] v rank_skip_known[OF known]
      by (simp add: setdefault_def key_def[symmetric])
  qed
qed

lemma tokens_to_ids_rank:
  "tokens_to_ids ts = map (\<lambda>t. rank (map key ts) (key t)) ts"
  using tokens_to_ids_loop_rank[of "[]" "[]" ts]
  by (simp add: tokens_to_ids_def ids_inv_def)

lemma length_takeWhile_neq_less:
  "a \<in> set ks \<Longrightarrow> length (takeWhile (\<lambda>x. x \<noteq> a) ks) < length ks"
  by (induction ks) auto

lemma rank_less:
  assumes "a \<in> set ks" "b \<in> set ks"
    and "length (takeWhile (\<lambda>x. x \<noteq> a) ks) < length (takeWhile (\<lambda>x. x \<noteq> b) ks)"
  shows "rank ks a < rank ks b"
proof -
  let ?i = "length (takeWhile (\<lambda>x. x \<noteq> a) ks)" and ?j = "length (takeWhile (\<lambda>x. x \<noteq> b) ks)"
  have i: "?i < length ks" using assms(1) by (rule length_takeWhile_neq_less)
  have ai: "ks ! ?i = a" using nth_length_takeWhile[OF i] by simp
  have twa: "takeWhile (\<lambda>x. x \<noteq> a) ks = take ?i ks" by (rule takeWhile_eq_take)
  have twb: "takeWhile (\<lambda>x. x \<noteq> b) ks = take ?j ks" by (rule takeWhile_eq_take)
  have "a \<notin> set (takeWhile (\<lambda>x. x \<noteq> a) ks)" by (auto dest: set_takeWhileD)
  moreover have "a \<in> set (take ?j ks)"
    using assms(3) i ai by (auto simp: in_set_conv_nth intro!: exI[of _ ?i])
  moreover have "set (take ?i ks) \<subseteq> set (take ?j ks)"
    using assms(3) by (intro set_take_subset_set_take) simp
  ultimately have "set (takeWhile (\<lambda>x. x \<noteq> a) ks) \<subset> set (takeWhile (\<lambda>x. x \<noteq> b) ks)"
    using twa twb by (metis psubsetI)
  then show ?thesis unfolding rank_def by (intro psubset_card_mono) simp_all
qed

lemma rank_inj:
  assumes "a \<in> set ks" "b \<in> set ks" "rank ks a = rank ks b"
  shows "a = b"
proof (rule ccontr)
  assume ne: "a \<noteq> b"
  let ?i = "length (takeWhile (\<lambda>x. x \<noteq> a) ks)" and ?j = "length (takeWhile (\<lambda>x. x \<noteq> b) ks)"
  have i: "?i < length ks" using assms(1) by (rule length_takeWhile_neq_less)
  have j: "?j < length ks" using assms(2) by (rule length_takeWhile_neq_less)
  have "ks ! ?i = a" "ks ! ?j = b"
    using nth_length_takeWhile[OF i] nth_length_takeWhile[OF j] by simp_all
  with ne have "?i \<noteq> ?j" by metis
  then consider "?i < ?j" | "?j < ?i" by linarith
  then show False
    using rank_less[OF assms(1,2)] rank_less[OF assms(2,1)] assms(3) by cases simp_all
qed

lemma rank_first_seen:
  assumes "i < length ks" "ks ! i \<notin> set (take i ks)"
  shows "rank ks (ks ! i) = card (set (take i ks))"
proof -
  have "takeWhile (\<lambda>x. x \<noteq> ks ! i) ks = take i ks"
  proof (rule takeWhile_eq_take_P_nth)
    fix j assume "j < i" "j < length ks"
    then have "ks ! j \<in> set (take i ks)" by (auto simp: in_set_conv_nth intro!: exI[of _ j])
    with assms(2) show "ks ! j \<noteq> ks ! i" by metis
  qed simp
  then show ?thesis by (simp add: rank_def)
qed

lemma tokens_to_ids_length: "length (tokens_to_ids ts) = length ts"
  by (simp add: tokens_to_ids_rank)

lemma tokens_to_ids_nth_eq_iff:
  assumes i: "i < length ts" and j: "j < length ts"
  shows "(tokens_to_ids ts ! i = tokens_to_ids ts ! j) =
         (lower (text_of (ts ! i)) = lower (text_of (ts ! j)))"
proof -
  have "key (ts ! i) \<in> set (map key ts)" "key (ts ! j) \<in> set (map key ts)"
    using i j by simp_all
  then have "(rank (map key ts) (key (ts ! i)) = rank (map key ts) (key (ts ! j))) =
             (key (ts ! i) = key (ts ! j))"
    using rank_inj by metis
  then show ?thesis
    using i j by (simp add: tokens_to_ids_rank key_def)
qed

lemma tokens_to_ids_first_seen:
  assumes i: "i < length ts"
    and fresh: "lower (text_of (ts ! i)) \<notin> (\<lambda>t. lower (text_of t)) ` set (take i ts)"
  shows "tokens_to_ids ts ! i = card ((\<lambda>t. lower (text_of t)) ` set (take i ts))"
proof -
  have "map key ts ! i \<notin> set (take i (map key ts))"
    using i fresh by (simp add: take_map key_def[abs_def])
  then have "rank (map key ts) (map key ts ! i) = card (set (take i (map key ts)))"
    using i by (intro rank_first_seen) simp_all
  then show ?thesis
    using i by (simp add: tokens_to_ids_rank take_map key_def[abs_def])
qed

text \<open>
  Claim C1.  For every token sequence, \<^verbatim>\<open>_tokens_to_ids\<close> returns one id per token, in
  input order; two positions have equal ids exactly when the lowercase forms of their tokens
  are equal; and a token whose lowercase form has not been seen before gets the number of
  different lowercase forms seen before it, that is, the next unused integer, starting
  at 0.
\<close>

theorem tokens_to_ids_alignment:
  "length (tokens_to_ids ts) = length ts \<and>
   (\<forall>i<length ts. \<forall>j<length ts.
      (tokens_to_ids ts ! i = tokens_to_ids ts ! j) =
      (lower (text_of (ts ! i)) = lower (text_of (ts ! j)))) \<and>
   (\<forall>i<length ts.
      lower (text_of (ts ! i)) \<notin> (\<lambda>t. lower (text_of t)) ` set (take i ts) \<longrightarrow>
      tokens_to_ids ts ! i = card ((\<lambda>t. lower (text_of t)) ` set (take i ts)))"
  using tokens_to_ids_length tokens_to_ids_nth_eq_iff tokens_to_ids_first_seen
  by blast

lemma lower_The: "lower ''The'' = ''the''"
  by (simp add: lower_def lower_char_def upper_letters_def lower_letters_def)

lemma lower_the: "lower ''the'' = ''the''"
  by (simp add: lower_def lower_char_def upper_letters_def lower_letters_def)

lemma lower_cat: "lower ''cat'' = ''cat''"
  by (simp add: lower_def lower_char_def upper_letters_def lower_letters_def)

theorem tokens_to_ids_alignment_witness:
  "length (tokens_to_ids [Token ''The'', Token ''cat'', Token ''the'']) = 3 \<and>
   tokens_to_ids [Token ''The'', Token ''cat'', Token ''the''] ! 0 =
     tokens_to_ids [Token ''The'', Token ''cat'', Token ''the''] ! 2 \<and>
   tokens_to_ids [Token ''The'', Token ''cat'', Token ''the''] ! 0 \<noteq>
     tokens_to_ids [Token ''The'', Token ''cat'', Token ''the''] ! 1 \<and>
   tokens_to_ids [Token ''The'', Token ''cat'', Token ''the''] ! 0 = 0 \<and>
   tokens_to_ids [Token ''The'', Token ''cat'', Token ''the''] ! 1 = 1"
proof -
  let ?ts = "[Token ''The'', Token ''cat'', Token ''the'']"
  note a = tokens_to_ids_alignment[of ?ts]
  have len: "length (tokens_to_ids ?ts) = 3"
    using a by simp
  have eq: "\<And>i j. i < 3 \<Longrightarrow> j < 3 \<Longrightarrow>
      (tokens_to_ids ?ts ! i = tokens_to_ids ?ts ! j) =
      (lower (text_of (?ts ! i)) = lower (text_of (?ts ! j)))"
    using a by simp
  have new: "\<And>i. i < 3 \<Longrightarrow>
      lower (text_of (?ts ! i)) \<notin> (\<lambda>t. lower (text_of t)) ` set (take i ?ts) \<Longrightarrow>
      tokens_to_ids ?ts ! i = card ((\<lambda>t. lower (text_of t)) ` set (take i ?ts))"
    using a by simp
  have "tokens_to_ids ?ts ! 0 = tokens_to_ids ?ts ! 2"
    using eq[of 0 2] by (simp add: lower_The lower_the)
  moreover have "tokens_to_ids ?ts ! 0 \<noteq> tokens_to_ids ?ts ! 1"
    using eq[of 0 1] by (simp add: lower_The lower_cat)
  moreover have "tokens_to_ids ?ts ! 0 = 0"
    using new[of 0] by simp
  moreover have "tokens_to_ids ?ts ! 1 = 1"
    using new[of 1] by (simp add: lower_The lower_cat)
  ultimately show ?thesis using len by simp
qed

section \<open>The pattern matcher\<close>

text \<open>What a successful match says about the text: every part of the pattern consumed a
  piece of it.\<close>

lemma lazy_dots_SomeD:
  "lazy_dots k acc bol s = Some r \<Longrightarrow>
   \<exists>d rest. s = d @ rest \<and> nl \<notin> set d \<and> k (acc @ d) (d = [] \<and> bol) rest = Some r"
proof (induction s arbitrary: acc bol)
  case Nil
  then show ?case by simp
next
  case (Cons c cs)
  show ?case
  proof (cases "k acc bol (c # cs)")
    case (Some r')
    with Cons.prems have "c # cs = [] @ (c # cs) \<and> nl \<notin> set [] \<and>
        k (acc @ []) ([] = [] \<and> bol) (c # cs) = Some r" by simp
    then show ?thesis by blast
  next
    case None
    with Cons.prems have c: "c \<noteq> nl" and rec: "lazy_dots k (acc @ [c]) False cs = Some r"
      by (auto split: if_splits)
    from Cons.IH[OF rec] obtain d rest where
      d: "cs = d @ rest" "nl \<notin> set d" "k ((acc @ [c]) @ d) (d = [] \<and> False) rest = Some r"
      by blast
    then have "c # cs = (c # d) @ rest \<and> nl \<notin> set (c # d) \<and>
               k (acc @ c # d) (c # d = [] \<and> bol) rest = Some r"
      using c by simp
    then show ?thesis by blast
  qed
qed

lemma greedy_nls_SomeD:
  "greedy_nls k bol s = Some r \<Longrightarrow>
   \<exists>n rest. s = replicate n nl @ rest \<and> k (0 < n \<or> bol) rest = Some r"
proof (induction s arbitrary: bol)
  case Nil
  then have "[] = replicate 0 nl @ [] \<and> k (0 < (0::nat) \<or> bol) [] = Some r" by simp
  then show ?case by blast
next
  case (Cons c cs)
  have here: "k bol (c # cs) = Some r \<Longrightarrow> ?case"
  proof -
    assume "k bol (c # cs) = Some r"
    then have "c # cs = replicate 0 nl @ (c # cs) \<and> k (0 < (0::nat) \<or> bol) (c # cs) = Some r"
      by simp
    then show ?case by blast
  qed
  show ?case
  proof (cases "c = nl \<and> greedy_nls k True cs \<noteq> None")
    case True
    with Cons.prems have rec: "greedy_nls k True cs = Some r" by auto
    from Cons.IH[OF rec] obtain n rest where
      "cs = replicate n nl @ rest" "k (0 < n \<or> True) rest = Some r" by blast
    then have "c # cs = replicate (Suc n) nl @ rest \<and> k (0 < Suc n \<or> bol) rest = Some r"
      using True by simp
    then show ?thesis by blast
  next
    case False
    with Cons.prems have "k bol (c # cs) = Some r" by (auto split: if_splits)
    then show ?thesis by (rule here)
  qed
qed

lemma greedy_dots_SomeD:
  "greedy_dots k acc bol s = Some r \<Longrightarrow>
   \<exists>d rest. s = d @ rest \<and> d \<noteq> [] \<and> nl \<notin> set d \<and> k (acc @ d) False rest = Some r"
proof (induction s arbitrary: acc bol)
  case Nil
  then show ?case by simp
next
  case (Cons c cs)
  from Cons.prems have c: "c \<noteq> nl" by (auto split: if_splits)
  show ?case
  proof (cases "greedy_dots k (acc @ [c]) False cs")
    case None
    with Cons.prems c have "k (acc @ [c]) False cs = Some r" by simp
    then have "c # cs = [c] @ cs \<and> [c] \<noteq> [] \<and> nl \<notin> set [c] \<and> k (acc @ [c]) False cs = Some r"
      using c by simp
    then show ?thesis by blast
  next
    case (Some r')
    with Cons.prems c have rec: "greedy_dots k (acc @ [c]) False cs = Some r" by simp
    from Cons.IH[OF rec] obtain d rest where
      "cs = d @ rest" "d \<noteq> []" "nl \<notin> set d" "k ((acc @ [c]) @ d) False rest = Some r" by blast
    then have "c # cs = (c # d) @ rest \<and> c # d \<noteq> [] \<and> nl \<notin> set (c # d) \<and>
               k (acc @ c # d) False rest = Some r"
      using c by simp
    then show ?thesis by blast
  qed
qed

lemma bullet_line_SomeD:
  assumes "bullet_line bol s = Some (m, r)"
  shows "s = m @ r" and "bol" and "\<exists>c t. m = ''* '' @ c # t \<and> c \<noteq> nl"
proof -
  from assms have b: bol and pre: "prefix ''* '' s"
    by (simp_all add: bullet_line_def split: if_splits)
  then obtain t where s: "s = ''* '' @ t" by (auto simp: prefix_def)
  from assms b pre s have item: "takeWhile (\<lambda>c. c \<noteq> nl) t \<noteq> []"
    and m: "m = ''* '' @ takeWhile (\<lambda>c. c \<noteq> nl) t @ takeWhile (\<lambda>c. c = nl) (dropWhile (\<lambda>c. c \<noteq> nl) t)"
    and r: "r = dropWhile (\<lambda>c. c = nl) (dropWhile (\<lambda>c. c \<noteq> nl) t)"
    by (auto simp: bullet_line_def Let_def split: if_splits)
  show "s = m @ r" using s m r by simp
  show bol by (rule b)
  from item obtain c u where cu: "takeWhile (\<lambda>c. c \<noteq> nl) t = c # u"
    by (cases "takeWhile (\<lambda>c. c \<noteq> nl) t") auto
  then have "c \<in> set (takeWhile (\<lambda>c. c \<noteq> nl) t)" by simp
  then have "c \<noteq> nl" by (auto dest: set_takeWhileD)
  then show "\<exists>c t. m = ''* '' @ c # t \<and> c \<noteq> nl" using m cu by auto
qed

lemma bullet_lines_None: "bullet_line bol s = None \<Longrightarrow> bullet_lines bol s = []"
  by (subst bullet_lines.simps) simp

lemma bullet_lines_Some:
  "bullet_line bol s = Some (m, r) \<Longrightarrow> bullet_lines bol s = m @ bullet_lines (last m = nl) r"
  by (subst bullet_lines.simps) simp

lemma bullet_lines_prefix: "\<exists>suf. s = bullet_lines bol s @ suf"
proof (induction bol s rule: bullet_lines.induct)
  case (1 bol s)
  show ?case
  proof (cases "bullet_line bol s")
    case None
    then show ?thesis by (simp add: bullet_lines_None)
  next
    case (Some mr)
    obtain m r where mr: "mr = (m, r)" by (cases mr)
    from "1.IH"[OF Some mr[symmetric]] obtain suf where suf: "r = bullet_lines (last m = nl) r @ suf"
      by blast
    have some: "bullet_line bol s = Some (m, r)" using Some mr by simp
    have "s = m @ r" using bullet_line_SomeD(1)[OF some] .
    then have "s = (m @ bullet_lines (last m = nl) r) @ suf"
      using suf by simp
    also have "m @ bullet_lines (last m = nl) r = bullet_lines bol s"
      using bullet_lines_Some[OF some] by simp
    finally show ?thesis by blast
  qed
qed

lemma bullet_lines_nonemptyD:
  assumes "bullet_lines bol s \<noteq> []"
  shows "bol \<and> (\<exists>c rest. s = ''* '' @ c # rest \<and> c \<noteq> nl)"
proof (cases "bullet_line bol s")
  case None
  with assms show ?thesis by (simp add: bullet_lines_None)
next
  case (Some mr)
  obtain m r where mr: "mr = (m, r)" by (cases mr)
  from bullet_line_SomeD[of bol s m r] Some mr
  have "s = m @ r" bol "\<exists>c t. m = ''* '' @ c # t \<and> c \<noteq> nl" by simp_all
  then show ?thesis by auto
qed

lemma bullet_lines_nonemptyI:
  assumes "c \<noteq> nl"
  shows "bullet_lines True (''* '' @ c # rest) \<noteq> []"
proof -
  have "takeWhile (\<lambda>c. c \<noteq> nl) (c # rest) \<noteq> []" using assms by simp
  then obtain m r where "bullet_line True (''* '' @ c # rest) = Some (m, r)" "m \<noteq> []"
    by (simp add: bullet_line_def Let_def)
  then show ?thesis using bullet_lines_Some[of True "''* '' @ c # rest" m r] by simp
qed

lemma match_here_SomeD:
  assumes "match_here bol s = Some (g1, g2, g3)"
  shows "\<exists>n suf. s = g1 @ replicate n nl @ g2 @ [CHR '':'', nl, nl] @ g3 @ suf \<and>
           nl \<notin> set g1 \<and> (0 < n \<or> g1 = [] \<and> bol) \<and> g2 \<noteq> [] \<and> nl \<notin> set g2 \<and>
           g3 \<noteq> [] \<and> bullet_lines True (g3 @ suf) = g3"
proof -
  let ?k3 = "\<lambda>g1 g2 r. (case bullet_lines True r of [] \<Rightarrow> None | c # cs \<Rightarrow> Some (g1, g2, c # cs))"
  let ?k2 = "\<lambda>g1 g2 (b::bool). literal [CHR '':'', nl, nl] (?k3 g1 g2)"
  let ?k1 = "\<lambda>g1. greedy_nls (at_bol (greedy_dots (?k2 g1) []))"
  from assms have "lazy_dots ?k1 [] bol s = Some (g1, g2, g3)"
    unfolding match_here_def .
  from lazy_dots_SomeD[OF this] obtain d s1 where
    s: "s = d @ s1" and d: "nl \<notin> set d"
    and a1: "?k1 ([] @ d) (d = [] \<and> bol) s1 = Some (g1, g2, g3)"
    by blast
  from a1 have 1: "greedy_nls (at_bol (greedy_dots (?k2 d) [])) (d = [] \<and> bol) s1 = Some (g1, g2, g3)"
    by (simp only: append_Nil)
  from greedy_nls_SomeD[OF 1] obtain n s2 where
    s1: "s1 = replicate n nl @ s2"
    and 2: "at_bol (greedy_dots (?k2 d) []) (0 < n \<or> d = [] \<and> bol) s2 = Some (g1, g2, g3)"
    by blast
  from 2 have b: "0 < n \<or> d = [] \<and> bol"
    and 3: "greedy_dots (?k2 d) [] (0 < n \<or> d = [] \<and> bol) s2 = Some (g1, g2, g3)"
    by (simp_all add: at_bol_def split: if_splits)
  from greedy_dots_SomeD[OF 3] obtain e s3 where
    s2: "s2 = e @ s3" and e: "e \<noteq> []" "nl \<notin> set e"
    and a4: "?k2 d ([] @ e) False s3 = Some (g1, g2, g3)"
    by blast
  from a4 have 4: "literal [CHR '':'', nl, nl] (?k3 d e) s3 = Some (g1, g2, g3)"
    by (simp only: append_Nil)
  from 4 have p: "prefix [CHR '':'', nl, nl] s3"
    by (simp add: literal_def split: if_splits)
  then obtain s4 where s3: "s3 = [CHR '':'', nl, nl] @ s4"
    by (auto simp: prefix_def)
  from 4 s3 have 6: "?k3 d e s4 = Some (g1, g2, g3)"
    by (simp add: literal_def)
  from 6 have g: "g1 = d" "g2 = e" "bullet_lines True s4 = g3" "g3 \<noteq> []"
    by (auto split: list.splits)
  obtain suf where s4: "s4 = g3 @ suf" using bullet_lines_prefix[of s4 True] g(3) by metis
  have "s = g1 @ replicate n nl @ g2 @ [CHR '':'', nl, nl] @ g3 @ suf"
    using s s1 s2 s3 s4 g(1,2) by simp
  moreover have "bullet_lines True (g3 @ suf) = g3" using g(3) s4 by simp
  moreover have "nl \<notin> set g1" "0 < n \<or> g1 = [] \<and> bol" "g2 \<noteq> []" "nl \<notin> set g2"
    using d b e g(1,2) by simp_all
  ultimately show ?thesis using g(4) by (intro exI[of _ n] exI[of _ suf]) simp
qed

lemma ends_line_append [simp]: "ends_line bol (xs @ ys) = ends_line (ends_line bol xs) ys"
  by (induction xs arbitrary: bol) auto

lemma ends_line_last: "xs \<noteq> [] \<Longrightarrow> ends_line bol xs = (last xs = nl)"
  by (induction xs arbitrary: bol) auto

lemma search_from_SomeD:
  "search_from bol s = Some m \<Longrightarrow>
   \<exists>pre s'. s = pre @ s' \<and> match_here (ends_line bol pre) s' = Some m"
proof (induction s arbitrary: bol)
  case Nil
  then show ?case
    by (intro exI[of _ "[]"]) simp
next
  case (Cons c cs)
  show ?case
  proof (cases "match_here bol (c # cs)")
    case (Some m')
    with Cons.prems have "match_here bol (c # cs) = Some m" by simp
    then show ?thesis
      by (intro exI[of _ "[]"] exI[of _ "c # cs"]) simp
  next
    case None
    with Cons.prems have "search_from (c = nl) cs = Some m" by simp
    from Cons.IH[OF this] obtain pre s' where
      "cs = pre @ s'" "match_here (ends_line (c = nl) pre) s' = Some m" by blast
    then show ?thesis
      by (intro exI[of _ "c # pre"] exI[of _ s']) simp
  qed
qed

lemma search_SomeD:
  assumes "search rule = Some (g1, g2, g3)"
  shows "\<exists>pre n suf. rule = pre @ g1 @ replicate n nl @ g2 @ [CHR '':'', nl, nl] @ g3 @ suf \<and>
           nl \<notin> set g1 \<and> ends_line True (pre @ g1 @ replicate n nl) \<and>
           (g1 \<noteq> [] \<longrightarrow> 0 < n) \<and> g2 \<noteq> [] \<and> nl \<notin> set g2 \<and>
           g3 \<noteq> [] \<and> bullet_lines True (g3 @ suf) = g3"
proof -
  from assms have "search_from True rule = Some (g1, g2, g3)" by (simp add: search_def)
  from search_from_SomeD[OF this] obtain pre s' where rule: "rule = pre @ s'"
    and m: "match_here (ends_line True pre) s' = Some (g1, g2, g3)"
    by blast
  from match_here_SomeD[OF m] obtain n suf where
    s': "s' = g1 @ replicate n nl @ g2 @ [CHR '':'', nl, nl] @ g3 @ suf"
    and g1: "nl \<notin> set g1" and b: "0 < n \<or> g1 = [] \<and> ends_line True pre"
    and rest: "g2 \<noteq> []" "nl \<notin> set g2" "g3 \<noteq> []" "bullet_lines True (g3 @ suf) = g3"
    by blast
  have "ends_line True (pre @ g1 @ replicate n nl)"
  proof (cases n)
    case 0
    with b show ?thesis by simp
  next
    case (Suc k)
    then have "replicate n nl \<noteq> []" "last (replicate n nl) = nl" by simp_all
    then show ?thesis by (simp add: ends_line_last)
  qed
  moreover have "g1 \<noteq> [] \<longrightarrow> 0 < n" using b by auto
  moreover have "rule = pre @ g1 @ replicate n nl @ g2 @ [CHR '':'', nl, nl] @ g3 @ suf"
    using rule s' by simp
  ultimately show ?thesis using g1 rest
    by (intro exI[of _ pre] exI[of _ n] exI[of _ suf]) simp
qed

lemma search_Some_occurs:
  assumes "search rule = Some m"
  shows "pattern_occurs rule"
proof -
  obtain g1 g2 g3 where m: "m = (g1, g2, g3)" by (cases m)
  from search_SomeD[OF assms[unfolded m]] obtain pre n suf where
    rule: "rule = pre @ g1 @ replicate n nl @ g2 @ [CHR '':'', nl, nl] @ g3 @ suf"
    and e: "ends_line True (pre @ g1 @ replicate n nl)"
    and g2: "g2 \<noteq> []" "nl \<notin> set g2" and g3: "g3 \<noteq> []" "bullet_lines True (g3 @ suf) = g3"
    by blast
  from g3 have "bullet_lines True (g3 @ suf) \<noteq> []" by simp
  from bullet_lines_nonemptyD[OF this] obtain c rest where
    c: "g3 @ suf = ''* '' @ c # rest" "c \<noteq> nl" by blast
  let ?pre = "pre @ g1 @ replicate n nl"
  have "rule = ?pre @ g2 @ [CHR '':'', nl, nl] @ ''* '' @ c # rest"
    using rule c(1) by simp
  moreover have "?pre = [] \<or> last ?pre = nl"
    using e ends_line_last[of ?pre True] by blast
  ultimately show ?thesis
    unfolding pattern_occurs_def using g2 c(2)
    by (intro exI[of _ ?pre] exI[of _ g2] exI[of _ c] exI[of _ rest]) simp
qed

text \<open>Conversely, the matcher finds a match wherever the structure occurs.\<close>

lemma lazy_dots_first: "k acc bol s \<noteq> None \<Longrightarrow> lazy_dots k acc bol s \<noteq> None"
  by (cases s) auto

lemma greedy_nls_no_nl: "s = [] \<or> hd s \<noteq> nl \<Longrightarrow> greedy_nls k bol s = k bol s"
  by (cases s) auto

lemma greedy_dots_complete:
  "d \<noteq> [] \<Longrightarrow> nl \<notin> set d \<Longrightarrow> k (acc @ d) False rest \<noteq> None \<Longrightarrow>
   greedy_dots k acc bol (d @ rest) \<noteq> None"
proof (induction d arbitrary: acc bol)
  case Nil
  then show ?case by simp
next
  case (Cons c d)
  show ?case
  proof (cases "d = []")
    case True
    with Cons.prems show ?thesis by (auto split: option.splits)
  next
    case False
    have "greedy_dots k (acc @ [c]) False (d @ rest) \<noteq> None"
      using Cons.IH[OF False, of "acc @ [c]" False] Cons.prems by simp
    with Cons.prems show ?thesis by (auto split: option.splits)
  qed
qed

lemma match_here_complete:
  assumes "label \<noteq> []" "nl \<notin> set label" "c \<noteq> nl"
  shows "match_here True (label @ [CHR '':'', nl, nl] @ ''* '' @ c # rest) \<noteq> None"
proof -
  let ?s = "label @ [CHR '':'', nl, nl] @ ''* '' @ c # rest"
  let ?k3 = "\<lambda>g1 g2 r. (case bullet_lines True r of [] \<Rightarrow> None | c # cs \<Rightarrow> Some (g1, g2, c # cs))"
  let ?k2 = "\<lambda>g1 g2 (b::bool). literal [CHR '':'', nl, nl] (?k3 g1 g2)"
  let ?k1 = "\<lambda>g1. greedy_nls (at_bol (greedy_dots (?k2 g1) []))"
  have b: "bullet_lines True (''* '' @ c # rest) \<noteq> []"
    using assms(3) by (rule bullet_lines_nonemptyI)
  have "?k2 [] ([] @ label) False ([CHR '':'', nl, nl] @ ''* '' @ c # rest) \<noteq> None"
    using b by (simp add: literal_def split: list.splits)
  then have "greedy_dots (?k2 []) [] True (label @ [CHR '':'', nl, nl] @ ''* '' @ c # rest) \<noteq> None"
    using assms(1,2) by (intro greedy_dots_complete)
  then have "at_bol (greedy_dots (?k2 []) []) True ?s \<noteq> None"
    by (simp add: at_bol_def)
  moreover have "?s = [] \<or> hd ?s \<noteq> nl"
    using assms(1,2) by (cases label) auto
  ultimately have "?k1 [] True ?s \<noteq> None"
    by (simp only: greedy_nls_no_nl)
  then have "lazy_dots ?k1 [] True ?s \<noteq> None"
    by (rule lazy_dots_first)
  then show ?thesis unfolding match_here_def .
qed

lemma search_from_here: "match_here bol s \<noteq> None \<Longrightarrow> search_from bol s \<noteq> None"
  by (cases s) auto

lemma search_from_complete:
  "match_here (ends_line bol pre) s \<noteq> None \<Longrightarrow> search_from bol (pre @ s) \<noteq> None"
proof (induction pre arbitrary: bol)
  case Nil
  then show ?case by (simp add: search_from_here)
next
  case (Cons c pre)
  then have "search_from (c = nl) (pre @ s) \<noteq> None" by simp
  then show ?case by (auto split: option.splits)
qed

lemma occurs_search:
  assumes "pattern_occurs rule"
  shows "search rule \<noteq> None"
proof -
  from assms obtain pre label c rest where
    rule: "rule = pre @ label @ [CHR '':'', nl, nl] @ ''* '' @ c # rest"
    and pre: "pre = [] \<or> last pre = nl"
    and l: "label \<noteq> []" "nl \<notin> set label" and c: "c \<noteq> nl"
    unfolding pattern_occurs_def by blast
  have "ends_line True pre"
    using pre ends_line_last[of pre True] by (cases "pre = []") auto
  then have "match_here (ends_line True pre) (label @ [CHR '':'', nl, nl] @ ''* '' @ c # rest) \<noteq> None"
    using match_here_complete[OF l c] by simp
  then show ?thesis
    unfolding search_def rule by (rule search_from_complete)
qed

lemma search_None_iff: "search rule = None \<longleftrightarrow> \<not> pattern_occurs rule"
proof
  assume "search rule = None"
  then show "\<not> pattern_occurs rule" using occurs_search[of rule] by blast
next
  assume "\<not> pattern_occurs rule"
  then show "search rule = None" using search_Some_occurs[of rule] by (cases "search rule") blast+
qed

section \<open>The rule normaliser\<close>

lemma set_py_slice: "set (py_slice xs lo hi) \<subseteq> set xs"
  unfolding py_slice_def Let_def by (meson set_drop_subset set_take_subset subset_trans)

lemma length_py_slice: "length (py_slice xs lo hi) \<le> length xs"
  unfolding py_slice_def Let_def by simp

lemma split_last_sentence_sets:
  "set (fst (split_last_sentence s)) \<subseteq> set s" "set (snd (split_last_sentence s)) \<subseteq> set s"
  "length (fst (split_last_sentence s)) \<le> length s"
  using set_py_slice[of s] length_py_slice[of s]
  by (auto simp: split_last_sentence_def Let_def dest: subsetD)

lemma split_on_no_sep: "sep \<notin> set x \<Longrightarrow> split_on sep x = [x]"
  by (induction x) auto

lemma split_on_nonempty: "split_on sep s \<noteq> []"
  by (induction s) (auto split: list.splits)

lemma split_on_append_sep: "split_on sep (x @ sep # y) = split_on sep x @ split_on sep y"
  by (induction x) (auto split: list.splits simp: split_on_nonempty)

lemma split_on_pieces: "a \<in> set (split_on sep s) \<Longrightarrow> sep \<notin> set a"
  by (induction s arbitrary: a) (auto split: if_splits list.splits)

lemma split_on_lines:
  assumes "\<forall>a\<in>set ps. sep \<notin> set (f a)"
  shows "split_on sep (concat (map (\<lambda>a. f a @ [sep]) ps)) = map f ps @ [[]]"
  using assms
proof (induction ps)
  case Nil
  then show ?case by simp
next
  case (Cons a ps)
  have "split_on sep (f a @ sep # concat (map (\<lambda>a. f a @ [sep]) ps)) =
        split_on sep (f a) @ split_on sep (concat (map (\<lambda>a. f a @ [sep]) ps))"
    by (rule split_on_append_sep)
  then show ?case using Cons by (simp add: split_on_no_sep)
qed

lemma no_heading_in_lines:
  assumes "\<forall>l\<in>set ls. l \<noteq> a"
  shows "xs @ a # b # q \<noteq> ls @ [e]"
  using assms
proof (induction ls arbitrary: xs)
  case Nil
  then show ?case by (cases xs) auto
next
  case (Cons l ls)
  then show ?case by (cases xs) auto
qed

lemma py_slice_from_2: "py_slice a (Some 2) None = drop 2 a"
  by (simp add: py_slice_def norm_index_def Let_def min_def)

lemma modify_rule_matched:
  assumes "search rule = Some (g1, g2, g3)"
  shows "modify_rule rule = (if excluded g2 then rule else flattened g1 g2 g3)"
  using assms
  by (simp add: modify_rule_def flattened_def excluded_def Let_def py_slice_from_2 list_ex_iff
           split: prod.splits)

lemma lines_of_rule:
  assumes "ends_line True A" "nl \<notin> set g2"
  shows "\<exists>P. split_on nl (A @ g2 @ [CHR '':'', nl, nl] @ R) =
              P @ (g2 @ '':'') # [] # split_on nl R \<and> (P = [] \<longrightarrow> A = [])"
proof (cases "A = []")
  case True
  have "split_on nl ((g2 @ '':'') @ nl # (nl # R)) =
        split_on nl (g2 @ '':'') @ split_on nl (nl # R)"
    by (rule split_on_append_sep)
  moreover have "split_on nl (g2 @ '':'') = [g2 @ '':'']"
    using assms(2) by (intro split_on_no_sep) (simp add: nl_def)
  ultimately have "split_on nl (A @ g2 @ [CHR '':'', nl, nl] @ R) =
        [] @ (g2 @ '':'') # [] # split_on nl R"
    using True by simp
  then show ?thesis using True by blast
next
  case False
  then have "last A = nl" using assms(1) ends_line_last by blast
  with False obtain A' where A: "A = A' @ [nl]" by (metis append_butlast_last_id)
  let ?rest = "(g2 @ '':'') @ nl # (nl # R)"
  have 1: "split_on nl (A' @ nl # ?rest) = split_on nl A' @ split_on nl ?rest"
    by (rule split_on_append_sep)
  have 2: "split_on nl ?rest = split_on nl (g2 @ '':'') @ split_on nl (nl # R)"
    by (rule split_on_append_sep)
  have 3: "split_on nl (g2 @ '':'') = [g2 @ '':'']"
    using assms(2) by (intro split_on_no_sep) (simp add: nl_def)
  have 4: "A @ g2 @ [CHR '':'', nl, nl] @ R = A' @ nl # ?rest"
    unfolding A by simp
  have "split_on nl (A @ g2 @ [CHR '':'', nl, nl] @ R) =
        split_on nl A' @ (g2 @ '':'') # [] # split_on nl R"
    unfolding 4 1 2 3 by simp
  then show ?thesis using split_on_nonempty by blast
qed

lemma lines_of_flattened:
  assumes "nl \<notin> set g1" "nl \<notin> set g2"
  shows "split_on nl (flattened g1 g2 g3) =
         g1 # fst (split_last_sentence g2) #
         map (\<lambda>a. snd (split_last_sentence g2) @ '' '' @ drop 2 a @ ''.'') (split_on nl g3) @ [[]]"
proof -
  let ?p2 = "fst (split_last_sentence g2)" and ?c = "snd (split_last_sentence g2)"
  let ?f = "\<lambda>a. ?c @ '' '' @ drop 2 a @ ''.''"
  let ?body = "concat (map (\<lambda>a. ?f a @ [nl]) (split_on nl g3))"
  have p2: "nl \<notin> set ?p2" and c: "nl \<notin> set ?c"
    using assms(2) split_last_sentence_sets(1,2)[of g2] by auto
  have "\<forall>a\<in>set (split_on nl g3). nl \<notin> set (?f a)"
  proof
    fix a assume "a \<in> set (split_on nl g3)"
    then have "nl \<notin> set a" by (rule split_on_pieces)
    then have "nl \<notin> set (drop 2 a)" by (meson in_set_dropD)
    then show "nl \<notin> set (?f a)" using c by (simp add: nl_def)
  qed
  then have body: "split_on nl ?body = map ?f (split_on nl g3) @ [[]]"
    by (rule split_on_lines)
  have fl: "flattened g1 g2 g3 = g1 @ nl # (?p2 @ nl # ?body)"
    by (simp add: flattened_def)
  have 1: "split_on nl (g1 @ nl # (?p2 @ nl # ?body)) =
        split_on nl g1 @ split_on nl (?p2 @ nl # ?body)"
    by (rule split_on_append_sep)
  have 2: "split_on nl (?p2 @ nl # ?body) = split_on nl ?p2 @ split_on nl ?body"
    by (rule split_on_append_sep)
  have 3: "split_on nl g1 = [g1]" "split_on nl ?p2 = [?p2]"
    using assms(1) p2 by (simp_all add: split_on_no_sep)
  show ?thesis
    unfolding fl 1 2 3 body by simp
qed

lemma flattened_differs:
  assumes "search rule = Some (g1, g2, g3)"
  shows "flattened g1 g2 g3 \<noteq> rule"
proof
  assume eq: "flattened g1 g2 g3 = rule"
  from search_SomeD[OF assms] obtain pre n suf where
    rule: "rule = pre @ g1 @ replicate n nl @ g2 @ [CHR '':'', nl, nl] @ g3 @ suf"
    and g1: "nl \<notin> set g1" and e: "ends_line True (pre @ g1 @ replicate n nl)"
    and g2: "g2 \<noteq> []" "nl \<notin> set g2"
    by blast
  let ?A = "pre @ g1 @ replicate n nl"
  let ?p2 = "fst (split_last_sentence g2)" and ?c = "snd (split_last_sentence g2)"
  let ?f = "\<lambda>a. ?c @ '' '' @ drop 2 a @ ''.''"
  let ?a = "g2 @ '':''"
  from lines_of_rule[OF e g2(2), of "g3 @ suf"] obtain P where
    P: "split_on nl (?A @ g2 @ [CHR '':'', nl, nl] @ g3 @ suf) =
          P @ ?a # [] # split_on nl (g3 @ suf)"
    and P0: "P = [] \<longrightarrow> ?A = []"
    by blast
  have "split_on nl rule = P @ ?a # [] # split_on nl (g3 @ suf)"
    using P rule by simp
  moreover have "split_on nl rule = g1 # ?p2 # map ?f (split_on nl g3) @ [[]]"
    using lines_of_flattened[OF g1 g2(2), of g3] eq by simp
  ultimately have L: "P @ ?a # [] # split_on nl (g3 @ suf) =
      g1 # ?p2 # map ?f (split_on nl g3) @ [[]]"
    by simp
  show False
  proof (cases P)
    case Nil
    with L have "g1 = ?a" by simp
    moreover from Nil P0 have "g1 = []" by simp
    ultimately show False by simp
  next
    case (Cons x P')
    note P1 = this
    show False
    proof (cases P')
      case Nil
      with L P1 have "?p2 = ?a" by simp
      then have "length ?p2 = Suc (length g2)" by simp
      then show False using split_last_sentence_sets(3)[of g2] by simp
    next
      case (Cons y P'')
      with L P1 have "P'' @ ?a # [] # split_on nl (g3 @ suf) = map ?f (split_on nl g3) @ [[]]"
        by simp
      moreover have "\<forall>l\<in>set (map ?f (split_on nl g3)). l \<noteq> ?a"
      proof
        fix l assume "l \<in> set (map ?f (split_on nl g3))"
        then obtain a where "l = (?c @ '' '' @ drop 2 a) @ ''.''" by auto
        then have "last l = CHR ''.''" by (metis last_snoc)
        moreover have "last ?a = CHR '':''" by simp
        ultimately show "l \<noteq> ?a" by auto
      qed
      ultimately show False
        using no_heading_in_lines[of "map ?f (split_on nl g3)" ?a P'' "[]"
                "split_on nl (g3 @ suf)" "[]"]
        by simp
    qed
  qed
qed

lemmas eval_search = search_def match_here_def at_bol_def literal_def nl_def bullet_line_def bullet_lines.simps
lemmas eval_modify = modify_rule_def split_last_sentence_def find_from_last_def py_slice_def norm_index_def exclude_words_def Let_def

lemma str_in_iff: "str_in sub s \<longleftrightarrow> (\<exists>p q. s = p @ sub @ q)"
proof (induction s)
  case Nil
  then show ?case by auto
next
  case (Cons c cs)
  show ?case
  proof
    assume "str_in sub (c # cs)"
    then consider "prefix sub (c # cs)" | "str_in sub cs" by auto
    then show "\<exists>p q. c # cs = p @ sub @ q"
    proof cases
      case 1
      then obtain q where "c # cs = [] @ sub @ q" by (auto simp: prefix_def)
      then show ?thesis by blast
    next
      case 2
      with Cons.IH obtain p q where "cs = p @ sub @ q" by blast
      then have "c # cs = (c # p) @ sub @ q" by simp
      then show ?thesis by blast
    qed
  next
    assume "\<exists>p q. c # cs = p @ sub @ q"
    then obtain p q where pq: "c # cs = p @ sub @ q" by blast
    show "str_in sub (c # cs)"
    proof (cases p)
      case Nil
      with pq have "prefix sub (c # cs)" by (simp add: prefix_def)
      then show ?thesis by simp
    next
      case (Cons d p')
      with pq have "cs = p' @ sub @ q" by simp
      then have "str_in sub cs" using Cons.IH by blast
      then show ?thesis by simp
    qed
  qed
qed

lemma py_find_char:
  "py_find s [c] = (if c \<in> set s then int (length (takeWhile (\<lambda>x. x \<noteq> c) s)) else - 1)"
  by (induction s) (auto simp: Let_def)

lemma find_from_last_none: "c \<notin> set s \<Longrightarrow> find_from_last s [c] = - 1"
  by (simp add: find_from_last_def py_find_char)

lemma takeWhile_upto_first: "c \<notin> set xs \<Longrightarrow> takeWhile (\<lambda>x. x \<noteq> c) (xs @ c # ys) = xs"
  by (induction xs) auto

lemma find_from_last_some:
  assumes "c \<notin> set b"
  shows "find_from_last (a @ [c] @ b) [c] = int (length a)"
proof -
  have "takeWhile (\<lambda>x. x \<noteq> c) (rev b @ c # rev a) = rev b"
    using assms by (intro takeWhile_upto_first) simp
  then show ?thesis
    by (simp add: find_from_last_def py_find_char Let_def)
qed

lemma split_last_sentence_none:
  "CHR ''.'' \<notin> set s \<Longrightarrow> split_last_sentence s = ([], s)"
  by (simp add: split_last_sentence_def find_from_last_none)

lemma split_last_sentence_some:
  assumes "CHR ''.'' \<notin> set b"
  shows "split_last_sentence (a @ ''.'' @ b) = (a @ ''.'', drop 1 b)"
proof -
  have f: "find_from_last (a @ ''.'' @ b) ''.'' = int (length a)"
    using find_from_last_some[OF assms] by simp
  have 1: "py_slice (a @ ''.'' @ b) None (Some (int (length a) + 1)) = a @ ''.''"
    by (simp add: py_slice_def norm_index_def Let_def nat_add_distrib min_def)
  have 2: "py_slice (a @ ''.'' @ b) (Some (int (length a) + 2)) None = drop 1 b"
    by (auto simp: py_slice_def norm_index_def Let_def nat_add_distrib min_def)
  show ?thesis
    unfolding split_last_sentence_def f Let_def using 1 2 by simp
qed

text \<open>
  Claim C8.  On a text in which the structure of the pattern does not occur,
  \<^verbatim>\<open>pattern.search\<close> finds nothing and \<^verbatim>\<open>modify_rule\<close> returns the text itself, so that
  applying it twice is the same as applying it once.  The function is total: it has a
  result for every string.
\<close>

theorem modify_rule_unmatched:
  assumes "\<not> pattern_occurs x"
  shows "search x = None \<and> modify_rule x = x \<and> modify_rule (modify_rule x) = modify_rule x"
proof -
  have "search x = None" using assms by (simp add: search_None_iff)
  then show ?thesis by (simp add: modify_rule_def)
qed

theorem modify_rule_unmatched_witness:
  "\<not> pattern_occurs ''No bullets here.'' \<and>
   modify_rule ''No bullets here.'' = ''No bullets here.'' \<and>
   modify_rule (modify_rule ''No bullets here.'') = modify_rule ''No bullets here.''"
proof -
  have "search ''No bullets here.'' = None"
    by (simp add: eval_search)
  then have n: "\<not> pattern_occurs ''No bullets here.''"
    by (simp add: search_None_iff)
  show ?thesis
    using n modify_rule_unmatched[OF n] by simp
qed

text \<open>
  Claim C10.  The exclusion list is the five literal strings below, the first being the
  single string \<^verbatim>\<open>'#,both'\<close>.  For every rule that the pattern matches, \<^verbatim>\<open>modify_rule\<close>
  returns its input unchanged exactly when one of the five strings occurs, letter case
  respected, as a contiguous substring of the condition that is distributed over the
  bullets.
\<close>

theorem exclusion_test:
  "exclude_words = [''#,both'', ''following'', ''either'', ''including'', ''include''] \<and>
   (search rule = Some (group1, group2, group3) \<longrightarrow>
      (modify_rule rule = rule) =
      (\<exists>word\<in>set exclude_words. \<exists>p q. snd (split_last_sentence group2) = p @ word @ q))"
proof (intro conjI impI)
  show "exclude_words = [''#,both'', ''following'', ''either'', ''including'', ''include'']"
    by (simp add: exclude_words_def)
next
  assume m: "search rule = Some (group1, group2, group3)"
  have "(modify_rule rule = rule) = excluded group2"
    using modify_rule_matched[OF m] flattened_differs[OF m] by auto
  then show "(modify_rule rule = rule) =
      (\<exists>word\<in>set exclude_words. \<exists>p q. snd (split_last_sentence group2) = p @ word @ q)"
    by (simp add: excluded_def str_in_iff)
qed

lemma search_includes:
  "search ''This includes:\<newline>\<newline>* a\<newline>* b'' = Some ([], ''This includes'', ''* a\<newline>* b'')"
  by (simp add: eval_search)

lemma search_both:
  "search ''Both apply:\<newline>\<newline>* a\<newline>* b'' = Some ([], ''Both apply'', ''* a\<newline>* b'')"
  by (simp add: eval_search)

lemma condition_includes: "snd (split_last_sentence ''This includes'') = ''This includes''"
  by (simp add: split_last_sentence_none)

lemma condition_both: "snd (split_last_sentence ''Both apply'') = ''Both apply''"
  by (simp add: split_last_sentence_none)

theorem exclusion_test_witness:
  "modify_rule ''This includes:\<newline>\<newline>* a\<newline>* b'' = ''This includes:\<newline>\<newline>* a\<newline>* b'' \<and>
   modify_rule ''Both apply:\<newline>\<newline>* a\<newline>* b'' \<noteq> ''Both apply:\<newline>\<newline>* a\<newline>* b''"
proof -
  have 1: "\<exists>word\<in>set exclude_words. \<exists>p q. ''This includes'' = p @ word @ q"
  proof -
    have "''include'' \<in> set exclude_words" by (simp add: exclude_words_def)
    moreover have "''This includes'' = ''This '' @ ''include'' @ ''s''" by simp
    ultimately show ?thesis by blast
  qed
  have 2: "\<not> (\<exists>word\<in>set exclude_words. \<exists>p q. ''Both apply'' = p @ word @ q)"
  proof -
    have "\<not> (\<exists>word\<in>set exclude_words. str_in word ''Both apply'')"
      by (simp add: exclude_words_def)
    then show ?thesis by (simp add: str_in_iff)
  qed
  show ?thesis
    using exclusion_test[of "''This includes:\<newline>\<newline>* a\<newline>* b''" "[]" "''This includes''" "''* a\<newline>* b''"]
          exclusion_test[of "''Both apply:\<newline>\<newline>* a\<newline>* b''" "[]" "''Both apply''" "''* a\<newline>* b''"]
          search_includes search_both 1 2
    by (simp only: condition_includes condition_both) blast
qed

text \<open>
  Claim C4.  The claim names \<^verbatim>\<open>both\<close> among the exclusion markers.  In the list literal of
  the code the comma between \<^verbatim>\<open>'#,'\<close> and \<^verbatim>\<open>'both'\<close> is missing, so the two literals are
  one string and \<^verbatim>\<open>both\<close> alone is not tested: a condition with \<^verbatim>\<open>both\<close> is flattened.  The
  example of the claim is returned unchanged, because its condition contains
  \<^verbatim>\<open>following\<close>.
\<close>

theorem modify_rule_both:
  "modify_rule ''You need both:\<newline>\<newline>* a\<newline>* b'' =
     ''\<newline>\<newline>You need both a.\<newline>You need both b.\<newline>'' \<and>
   modify_rule ''Check eligibility.\<newline>Both of the following:\<newline>\<newline>* age>18\<newline>* resident\<newline>'' =
     ''Check eligibility.\<newline>Both of the following:\<newline>\<newline>* age>18\<newline>* resident\<newline>''"
  by (simp add: eval_search eval_modify)

text \<open>
  Claim C6.  \<^verbatim>\<open>bullets.split('\n')\<close> also returns the empty piece after the newline that
  ends the last bullet, and the list comprehension makes a line of it: on the example of
  the specification the result has a third line \<^verbatim>\<open>Condition .\<close> after the two lines of
  the two bullets.
\<close>

theorem modify_rule_trailing_newline:
  "modify_rule ''Intro.\<newline>Condition:\<newline>\<newline>* item one\<newline>* item two\<newline>'' =
     ''Intro.\<newline>\<newline>Condition item one.\<newline>Condition item two.\<newline>Condition .\<newline>''"
  by (simp add: eval_search eval_modify)

text \<open>
  Claim C3, as stated, fails: the text up to and including the last period of group 2 goes
  to the pretext and the rest is the condition, not the other way round; and with no
  period the whole group is the condition and nothing is added to the pretext.
\<close>

theorem split_roles_counterexample:
  "split_last_sentence ''Intro. You qualify if'' = (''Intro.'', ''You qualify if'') \<and>
   modify_rule ''Intro. You qualify if:\<newline>\<newline>* a\<newline>* b'' =
     ''\<newline>Intro.\<newline>You qualify if a.\<newline>You qualify if b.\<newline>'' \<and>
   split_last_sentence ''You qualify if'' = ([], ''You qualify if'') \<and>
   modify_rule ''You qualify if:\<newline>\<newline>* a\<newline>* b'' =
     ''\<newline>\<newline>You qualify if a.\<newline>You qualify if b.\<newline>''"
  by (simp add: eval_search eval_modify)

text \<open>
  Claim C3, amended.  \<^verbatim>\<open>split_last_sentence\<close> returns the text up to and including the
  last period first and what follows the period and the one character after it second;
  without a period it returns the empty string first and the whole text second.  When the
  pattern matches and no exclusion word stops the rewriting, \<^verbatim>\<open>modify_rule\<close> appends the
  first component to the pretext and distributes the second component over the pieces of
  group 3.
\<close>

theorem split_roles:
  "(CHR ''.'' \<notin> set s \<longrightarrow> split_last_sentence s = ([], s)) \<and>
   (CHR ''.'' \<notin> set b \<longrightarrow> split_last_sentence (a @ ''.'' @ b) = (a @ ''.'', drop 1 b)) \<and>
   (search rule = Some (group1, group2, group3) \<and>
    \<not> (\<exists>word\<in>set exclude_words. str_in word (snd (split_last_sentence group2))) \<longrightarrow>
      modify_rule rule =
        group1 @ [nl] @ fst (split_last_sentence group2) @ [nl] @
        concat (map (\<lambda>item. snd (split_last_sentence group2) @ '' '' @ drop 2 item @ [CHR ''.'', nl])
                  (split_on nl group3)))"
  using split_last_sentence_none[of s] split_last_sentence_some[of b a]
        modify_rule_matched[of rule group1 group2 group3]
  by (simp add: excluded_def flattened_def)

lemma search_qualify:
  "search ''Intro. You qualify if:\<newline>\<newline>* a\<newline>* b'' =
     Some ([], ''Intro. You qualify if'', ''* a\<newline>* b'')"
  by (simp add: eval_search)

lemma split_on_ab: "split_on nl ''* a\<newline>* b'' = [''* a'', ''* b'']"
  by (simp add: nl_def)

theorem split_roles_witness:
  "split_last_sentence ''Intro'' = ([], ''Intro'') \<and>
   split_last_sentence ''Intro. You qualify if'' = (''Intro.'', ''You qualify if'') \<and>
   modify_rule ''Intro. You qualify if:\<newline>\<newline>* a\<newline>* b'' =
     ''\<newline>Intro.\<newline>You qualify if a.\<newline>You qualify if b.\<newline>''"
proof -
  have 1: "split_last_sentence ''Intro'' = ([], ''Intro'')"
    using split_roles[of "''Intro''"] by simp
  have 2: "split_last_sentence ''Intro. You qualify if'' = (''Intro.'', ''You qualify if'')"
    using split_roles[of "[]" "'' You qualify if''" "''Intro''"] by simp
  have 3: "\<not> (\<exists>word\<in>set exclude_words. str_in word ''You qualify if'')"
    by (simp add: exclude_words_def)
  have "modify_rule ''Intro. You qualify if:\<newline>\<newline>* a\<newline>* b'' =
     ''\<newline>Intro.\<newline>You qualify if a.\<newline>You qualify if b.\<newline>''"
    using split_roles[of "[]" "[]" "[]" "''Intro. You qualify if:\<newline>\<newline>* a\<newline>* b''" "[]"
            "''Intro. You qualify if''" "''* a\<newline>* b''"] search_qualify 3
    by (simp add: 2 split_on_ab nl_def)
  then show ?thesis using 1 2 by simp
qed

section \<open>Instance assembly\<close>

lemma py_slice_inner: "py_slice (a # xs @ [b]) (Some 1) (Some (- 1)) = xs"
  by (simp add: py_slice_def norm_index_def Let_def)

lemma py_slice_upto: "py_slice (xs @ ys) None (Some (int (length xs))) = xs"
  by (simp add: py_slice_def norm_index_def Let_def)

lemma py_slice_from: "py_slice (xs @ ys) (Some (int (length xs))) None = ys"
  by (simp add: py_slice_def norm_index_def Let_def)

lemma inner_wrap_source:
  "py_slice (wrap_source self s) (Some 1) (Some (- 1)) = source_tokenizer self s"
  by (simp add: wrap_source_def py_slice_inner)

lemma inner_wrap_target:
  "py_slice (wrap_target self s) (Some 1) (Some (- 1)) = target_tokenizer self s"
  by (simp add: wrap_target_def py_slice_inner)

lemma length_wrap_source: "int (length (wrap_source self s)) - 2 = int (length (source_tokenizer self s))"
  by (simp add: wrap_source_def)

lemma aligner_tokens_None:
  "aligner_tokens (wrap_source self s) None = source_tokenizer self s"
  by (simp add: aligner_tokens_def inner_wrap_source)

lemma aligner_tokens_Some:
  "aligner_tokens (wrap_source self s) (Some (wrap_target self a)) =
   source_tokenizer self s @ wrap_target self a"
  by (simp add: aligner_tokens_def inner_wrap_source)

lemma source_history_wf: "wf_history h \<Longrightarrow> \<exists>s. source_history acc h = Inr s"
  by (induction h arbitrary: acc) (auto simp: wf_history_def getitem_def)

lemma question_history_wf: "wf_history h \<Longrightarrow> \<exists>s. question_history acc h = Inr s"
  by (induction h arbitrary: acc) (auto simp: wf_history_def getitem_def)

lemma text_to_instance_None:
  assumes "source_history ('' @@RS@@ '' @ rule_text @ '' @@RE@@ '') h = Inr ss"
    and "question_history (''@@QS@@ '' @ q @ '' @@SS@@ '' @ sc @ '' @@HS@@ '') h = Inr qt"
  shows "\<exists>inst. text_to_instance self rule_text q sc h uid tid url None ev = Inr (Some inst) \<and>
     instance_fields inst ''target_tokens'' = None \<and>
     instance_fields inst ''target_token_ids'' = None \<and>
     instance_fields inst ''label'' = None \<and>
     instance_fields inst ''source_token_ids'' =
       Some (ArrayField (tokens_to_ids (source_tokenizer self ss)))"
  using assms
  by (simp add: text_to_instance_def Let_def aligner_tokens_None)

lemma text_to_instance_Some:
  assumes "source_history ('' @@RS@@ '' @ rule_text @ '' @@RE@@ '') h = Inr ss"
    and "question_history (''@@QS@@ '' @ q @ '' @@SS@@ '' @ sc @ '' @@HS@@ '') h = Inr qt"
  shows "\<exists>inst. text_to_instance self rule_text q sc h uid tid url (Some a) ev = Inr (Some inst) \<and>
     instance_fields inst ''target_tokens'' = Some (TextField (wrap_target self a) Target_token_indexers) \<and>
     instance_fields inst ''label'' =
       Some (LabelField (if a \<notin> set [''Yes'', ''No'', ''Irrelevant''] then ''More'' else a)) \<and>
     instance_fields inst ''source_token_ids'' =
       Some (ArrayField (take (length (source_tokenizer self ss))
         (tokens_to_ids (source_tokenizer self ss @ wrap_target self a)))) \<and>
     instance_fields inst ''target_token_ids'' =
       Some (ArrayField (drop (length (source_tokenizer self ss))
         (tokens_to_ids (source_tokenizer self ss @ wrap_target self a))))"
proof -
  let ?ids = "tokens_to_ids (source_tokenizer self ss @ wrap_target self a)"
  have l: "length ?ids = length (source_tokenizer self ss) + length (wrap_target self a)"
    by (simp add: tokens_to_ids_length)
  have 1: "py_slice ?ids None (Some (int (length (source_tokenizer self ss)))) =
           take (length (source_tokenizer self ss)) ?ids"
    using l by (simp add: py_slice_def norm_index_def Let_def)
  have 2: "py_slice ?ids (Some (int (length (source_tokenizer self ss)))) None =
           drop (length (source_tokenizer self ss)) ?ids"
    using l by (simp add: py_slice_def norm_index_def Let_def)
  show ?thesis
    using assms
    by (simp add: text_to_instance_def Let_def aligner_tokens_Some length_wrap_source 1 2
             del: set_simps)
qed

lemma joint_ids:
  fixes src tgt :: "token list"
  defines "ids \<equiv> tokens_to_ids (src @ tgt)"
  shows "take (length src) ids @ drop (length src) ids = ids"
    and "length (take (length src) ids) = length src"
    and "length (drop (length src) ids) = length tgt"
    and "i < length src \<Longrightarrow> j < length tgt \<Longrightarrow>
         (take (length src) ids ! i = drop (length src) ids ! j) =
         (lower (text_of (src ! i)) = lower (text_of (tgt ! j)))"
proof -
  have l: "length ids = length src + length tgt"
    by (simp add: ids_def tokens_to_ids_length)
  show "take (length src) ids @ drop (length src) ids = ids" by simp
  show "length (take (length src) ids) = length src" using l by simp
  show "length (drop (length src) ids) = length tgt" using l by simp
  assume i: "i < length src" and j: "j < length tgt"
  have "(ids ! i = ids ! (length src + j)) =
        (lower (text_of ((src @ tgt) ! i)) = lower (text_of ((src @ tgt) ! (length src + j))))"
    unfolding ids_def using i j by (intro tokens_to_ids_nth_eq_iff) simp_all
  then show "(take (length src) ids ! i = drop (length src) ids ! j) =
         (lower (text_of (src ! i)) = lower (text_of (tgt ! j)))"
    using i j l by (simp add: nth_append)
qed

text \<open>
  Claim C5.  With an answer, the ids come from one call of \<^verbatim>\<open>_tokens_to_ids\<close> on the inner
  source tokens followed by the whole wrapped target; \<^verbatim>\<open>source_token_ids\<close> has the length of
  the wrapped source minus 2, \<^verbatim>\<open>target_token_ids\<close> the length of the wrapped target, and a
  source token and a target token have the same id exactly when their lowercase texts are
  equal.
\<close>

theorem training_alignment:
  assumes "wf_history history"
  shows "\<exists>inst source_string sids tids.
     source_history ('' @@RS@@ '' @ rule_text @ '' @@RE@@ '') history = Inr source_string \<and>
     text_to_instance self rule_text question scenario history utterance_id tree_id source_url
       (Some answer) evidence = Inr (Some inst) \<and>
     instance_fields inst ''source_token_ids'' = Some (ArrayField sids) \<and>
     instance_fields inst ''target_token_ids'' = Some (ArrayField tids) \<and>
     sids @ tids =
       tokens_to_ids (py_slice (wrap_source self source_string) (Some 1) (Some (- 1)) @
                      wrap_target self answer) \<and>
     int (length sids) = int (length (wrap_source self source_string)) - 2 \<and>
     length tids = length (wrap_target self answer) \<and>
     (\<forall>i<length sids. \<forall>j<length tids.
        (sids ! i = tids ! j) =
        (lower (text_of (py_slice (wrap_source self source_string) (Some 1) (Some (- 1)) ! i)) =
         lower (text_of (wrap_target self answer ! j))))"
proof -
  from source_history_wf[OF assms] obtain ss where
    ss: "source_history ('' @@RS@@ '' @ rule_text @ '' @@RE@@ '') history = Inr ss" by blast
  from question_history_wf[OF assms] obtain qt where
    qt: "question_history (''@@QS@@ '' @ question @ '' @@SS@@ '' @ scenario @ '' @@HS@@ '') history = Inr qt"
    by blast
  let ?src = "source_tokenizer self ss" and ?tgt = "wrap_target self answer"
  let ?ids = "tokens_to_ids (?src @ ?tgt)"
  from text_to_instance_Some[OF ss qt, of self utterance_id tree_id source_url answer evidence]
  obtain inst where
    inst: "text_to_instance self rule_text question scenario history utterance_id tree_id
             source_url (Some answer) evidence = Inr (Some inst)"
    and s: "instance_fields inst ''source_token_ids'' = Some (ArrayField (take (length ?src) ?ids))"
    and t: "instance_fields inst ''target_token_ids'' = Some (ArrayField (drop (length ?src) ?ids))"
    by blast
  note j = joint_ids[where src="?src" and tgt="?tgt"]
  have "\<forall>i<length (take (length ?src) ?ids). \<forall>j<length (drop (length ?src) ?ids).
        (take (length ?src) ?ids ! i = drop (length ?src) ?ids ! j) =
        (lower (text_of (?src ! i)) = lower (text_of (?tgt ! j)))"
    using j(4) by (simp only: j(2) j(3)) blast
  then have q: "\<forall>i<length (take (length ?src) ?ids). \<forall>j<length (drop (length ?src) ?ids).
        (take (length ?src) ?ids ! i = drop (length ?src) ?ids ! j) =
        (lower (text_of (?src ! i)) = lower (text_of (?tgt ! j)))" .
  show ?thesis
    apply (rule exI[of _ inst], rule exI[of _ ss], rule exI[of _ "take (length ?src) ?ids"],
        rule exI[of _ "drop (length ?src) ?ids"])
    apply (insert ss inst s t j(1,2,3) q)
    apply (simp add: inner_wrap_source length_wrap_source)
    done
qed

lemmas eval_tokenizer = whitespace_tokenizer_def sample_reader_def wrap_source_def wrap_target_def
  START_SYMBOL_def END_SYMBOL_def
lemmas eval_ids = tokens_to_ids_def setdefault_def lower_def lower_char_def upper_letters_def
  lower_letters_def

lemma sample_history_wf:
  "wf_history [[(''follow_up_question'', ''Are you a resident?''), (''follow_up_answer'', ''Yes'')]]"
  by (simp add: wf_history_def)

theorem training_alignment_witness:
  "wf_history [[(''follow_up_question'', ''Are you a resident?''), (''follow_up_answer'', ''Yes'')]] \<and>
   (\<exists>inst sids tids.
      text_to_instance sample_reader ''You qualify if you are a resident.'' ''Am I eligible?''
        ''I live here.''
        [[(''follow_up_question'', ''Are you a resident?''), (''follow_up_answer'', ''Yes'')]]
        None None None (Some ''You qualify.'') None = Inr (Some inst) \<and>
      instance_fields inst ''source_token_ids'' = Some (ArrayField sids) \<and>
      instance_fields inst ''target_token_ids'' = Some (ArrayField tids) \<and>
      length tids = length (wrap_target sample_reader ''You qualify.''))"
proof -
  from training_alignment[OF sample_history_wf, of "''You qualify if you are a resident.''"
      sample_reader "''Am I eligible?''" "''I live here.''" None None None "''You qualify.''" None]
  obtain inst source_string sids tids where
    "text_to_instance sample_reader ''You qualify if you are a resident.'' ''Am I eligible?''
        ''I live here.''
        [[(''follow_up_question'', ''Are you a resident?''), (''follow_up_answer'', ''Yes'')]]
        None None None (Some ''You qualify.'') None = Inr (Some inst)"
    "instance_fields inst ''source_token_ids'' = Some (ArrayField sids)"
    "instance_fields inst ''target_token_ids'' = Some (ArrayField tids)"
    "length tids = length (wrap_target sample_reader ''You qualify.'')"
    by blast
  then show ?thesis using sample_history_wf by blast
qed

text \<open>
  Claim C7.  Every well-formed input (each turn of the history has its two keys) gives an
  instance, never an exception and never \<^verbatim>\<open>None\<close>; and without an answer the instance has
  no field \<^verbatim>\<open>target_tokens\<close>, \<^verbatim>\<open>target_token_ids\<close> or \<^verbatim>\<open>label\<close>, and its \<^verbatim>\<open>source_token_ids\<close>
  are the ids of the inner source tokens alone.
\<close>

theorem inference_instance:
  assumes "wf_history history"
  shows "(\<exists>inst. text_to_instance self rule_text question scenario history utterance_id tree_id
            source_url answer evidence = Inr (Some inst)) \<and>
     (\<exists>inst source_string.
        source_history ('' @@RS@@ '' @ rule_text @ '' @@RE@@ '') history = Inr source_string \<and>
        text_to_instance self rule_text question scenario history utterance_id tree_id
          source_url None evidence = Inr (Some inst) \<and>
        instance_fields inst ''target_tokens'' = None \<and>
        instance_fields inst ''target_token_ids'' = None \<and>
        instance_fields inst ''label'' = None \<and>
        instance_fields inst ''source_token_ids'' =
          Some (ArrayField (tokens_to_ids
            (py_slice (wrap_source self source_string) (Some 1) (Some (- 1))))))"
proof -
  from source_history_wf[OF assms] obtain ss where
    ss: "source_history ('' @@RS@@ '' @ rule_text @ '' @@RE@@ '') history = Inr ss" by blast
  from question_history_wf[OF assms] obtain qt where
    qt: "question_history (''@@QS@@ '' @ question @ '' @@SS@@ '' @ scenario @ '' @@HS@@ '') history = Inr qt"
    by blast
  note n = text_to_instance_None[OF ss qt, of self utterance_id tree_id source_url evidence]
  have 1: "\<exists>inst. text_to_instance self rule_text question scenario history utterance_id tree_id
            source_url answer evidence = Inr (Some inst)"
  proof (cases answer)
    case None
    then show ?thesis using n by blast
  next
    case (Some a)
    then show ?thesis
      using text_to_instance_Some[OF ss qt, of self utterance_id tree_id source_url a evidence]
      by blast
  qed
  from n obtain inst where
    "text_to_instance self rule_text question scenario history utterance_id tree_id
          source_url None evidence = Inr (Some inst)"
    "instance_fields inst ''target_tokens'' = None"
    "instance_fields inst ''target_token_ids'' = None"
    "instance_fields inst ''label'' = None"
    "instance_fields inst ''source_token_ids'' =
          Some (ArrayField (tokens_to_ids (source_tokenizer self ss)))"
    by blast
  then have 2: "\<exists>inst source_string.
        source_history ('' @@RS@@ '' @ rule_text @ '' @@RE@@ '') history = Inr source_string \<and>
        text_to_instance self rule_text question scenario history utterance_id tree_id
          source_url None evidence = Inr (Some inst) \<and>
        instance_fields inst ''target_tokens'' = None \<and>
        instance_fields inst ''target_token_ids'' = None \<and>
        instance_fields inst ''label'' = None \<and>
        instance_fields inst ''source_token_ids'' =
          Some (ArrayField (tokens_to_ids
            (py_slice (wrap_source self source_string) (Some 1) (Some (- 1)))))"
    using ss by (intro exI[of _ inst] exI[of _ ss]) (simp add: inner_wrap_source)
  show ?thesis using 1 2 by (rule conjI)
qed

theorem inference_instance_witness:
  "wf_history [[(''follow_up_question'', ''Are you a resident?''), (''follow_up_answer'', ''Yes'')]] \<and>
   (\<exists>inst.
      text_to_instance sample_reader ''You qualify if you are a resident.'' ''Am I eligible?''
        ''I live here.''
        [[(''follow_up_question'', ''Are you a resident?''), (''follow_up_answer'', ''Yes'')]]
        None None None None None = Inr (Some inst) \<and>
      instance_fields inst ''target_tokens'' = None \<and>
      instance_fields inst ''target_token_ids'' = None \<and>
      instance_fields inst ''label'' = None)"
proof -
  from inference_instance[OF sample_history_wf, of sample_reader
      "''You qualify if you are a resident.''" "''Am I eligible?''" "''I live here.''"
      None None None None None]
  obtain inst where
    "text_to_instance sample_reader ''You qualify if you are a resident.'' ''Am I eligible?''
        ''I live here.''
        [[(''follow_up_question'', ''Are you a resident?''), (''follow_up_answer'', ''Yes'')]]
        None None None None None = Inr (Some inst)"
    "instance_fields inst ''target_tokens'' = None"
    "instance_fields inst ''target_token_ids'' = None"
    "instance_fields inst ''label'' = None"
    by blast
  then show ?thesis using sample_history_wf by blast
qed

text \<open>
  Claim C2, as stated, fails with an answer: the whole wrapped target, with its two
  sentinels, is passed to the aligner, and the sentinels get ids.  Here the answer is the
  one word \<^verbatim>\<open>Yes\<close> and \<^verbatim>\<open>target_token_ids\<close> has three ids.
\<close>

theorem target_sentinels_counterexample:
  "aligner_tokens (wrap_source sample_reader '' @@RS@@ r @@RE@@ '')
     (Some (wrap_target sample_reader ''Yes'')) =
     [Token ''@@RS@@'', Token ''r'', Token ''@@RE@@'',
      Token START_SYMBOL, Token ''Yes'', Token END_SYMBOL] \<and>
   result_field (text_to_instance sample_reader ''r'' ''q'' ''s'' [] None None None
                   (Some ''Yes'') None) ''target_token_ids'' = Some (ArrayField [3, 4, 5])"
  by (simp add: result_field_def text_to_instance_def aligner_tokens_def py_slice_def
        norm_index_def Let_def eval_tokenizer eval_ids)

text \<open>
  Claim C2, amended.  The two sentinels of the source are never passed to the aligner:
  without an answer its argument is the tokenizer's output for the source string, and with
  an answer it is that output followed by the whole wrapped target.  The two sentinels of
  the target are passed and get ids: \<^verbatim>\<open>target_token_ids\<close> has two ids more than the answer
  has tokens.
\<close>

theorem aligner_input:
  assumes "wf_history history"
  shows "\<exists>source_string sids tids.
     source_history ('' @@RS@@ '' @ rule_text @ '' @@RE@@ '') history = Inr source_string \<and>
     aligner_tokens (wrap_source self source_string) None = source_tokenizer self source_string \<and>
     aligner_tokens (wrap_source self source_string) (Some (wrap_target self answer)) =
       source_tokenizer self source_string @
       [Token START_SYMBOL] @ target_tokenizer self answer @ [Token END_SYMBOL] \<and>
     result_field (text_to_instance self rule_text question scenario history utterance_id
        tree_id source_url None evidence) ''source_token_ids'' =
       Some (ArrayField (tokens_to_ids (source_tokenizer self source_string))) \<and>
     result_field (text_to_instance self rule_text question scenario history utterance_id
        tree_id source_url (Some answer) evidence) ''source_token_ids'' =
       Some (ArrayField sids) \<and>
     result_field (text_to_instance self rule_text question scenario history utterance_id
        tree_id source_url (Some answer) evidence) ''target_token_ids'' =
       Some (ArrayField tids) \<and>
     sids @ tids =
       tokens_to_ids (source_tokenizer self source_string @
         [Token START_SYMBOL] @ target_tokenizer self answer @ [Token END_SYMBOL]) \<and>
     length sids = length (source_tokenizer self source_string) \<and>
     length tids = length (target_tokenizer self answer) + 2"
proof -
  from source_history_wf[OF assms] obtain ss where
    ss: "source_history ('' @@RS@@ '' @ rule_text @ '' @@RE@@ '') history = Inr ss" by blast
  from question_history_wf[OF assms] obtain qt where
    qt: "question_history (''@@QS@@ '' @ question @ '' @@SS@@ '' @ scenario @ '' @@HS@@ '') history = Inr qt"
    by blast
  let ?src = "source_tokenizer self ss" and ?tgt = "wrap_target self answer"
  let ?ids = "tokens_to_ids (?src @ ?tgt)"
  have w: "?tgt = [Token START_SYMBOL] @ target_tokenizer self answer @ [Token END_SYMBOL]"
    by (simp add: wrap_target_def)
  from text_to_instance_None[OF ss qt, of self utterance_id tree_id source_url evidence]
  have n: "result_field (text_to_instance self rule_text question scenario history utterance_id
        tree_id source_url None evidence) ''source_token_ids'' =
       Some (ArrayField (tokens_to_ids ?src))"
    by (auto simp: result_field_def)
  from text_to_instance_Some[OF ss qt, of self utterance_id tree_id source_url answer evidence]
  have s: "result_field (text_to_instance self rule_text question scenario history utterance_id
        tree_id source_url (Some answer) evidence) ''source_token_ids'' =
       Some (ArrayField (take (length ?src) ?ids))"
    and t: "result_field (text_to_instance self rule_text question scenario history utterance_id
        tree_id source_url (Some answer) evidence) ''target_token_ids'' =
       Some (ArrayField (drop (length ?src) ?ids))"
    by (auto simp: result_field_def)
  note j = joint_ids[where src="?src" and tgt="?tgt"]
  have lt: "length (drop (length ?src) ?ids) = length (target_tokenizer self answer) + 2"
    using j(3) by (simp add: wrap_target_def)
  show ?thesis
    apply (rule exI[of _ ss], rule exI[of _ "take (length ?src) ?ids"],
        rule exI[of _ "drop (length ?src) ?ids"])
    apply (insert ss n s t j(1,2) lt aligner_tokens_None[of self ss]
        aligner_tokens_Some[of self ss answer])
    apply (simp add: wrap_target_def)
    done
qed

theorem aligner_input_witness:
  "wf_history [[(''follow_up_question'', ''Are you a resident?''), (''follow_up_answer'', ''Yes'')]] \<and>
   (\<exists>tids.
      result_field (text_to_instance sample_reader ''You qualify if you are a resident.''
        ''Am I eligible?'' ''I live here.''
        [[(''follow_up_question'', ''Are you a resident?''), (''follow_up_answer'', ''Yes'')]]
        None None None (Some ''You qualify.'') None) ''target_token_ids'' = Some (ArrayField tids) \<and>
      length tids = length (target_tokenizer sample_reader ''You qualify.'') + 2)"
proof -
  from aligner_input[OF sample_history_wf, of "''You qualify if you are a resident.''"
      sample_reader "''You qualify.''" "''Am I eligible?''" "''I live here.''" None None None None]
  obtain tids where
    "result_field (text_to_instance sample_reader ''You qualify if you are a resident.''
        ''Am I eligible?'' ''I live here.''
        [[(''follow_up_question'', ''Are you a resident?''), (''follow_up_answer'', ''Yes'')]]
        None None None (Some ''You qualify.'') None) ''target_token_ids'' = Some (ArrayField tids)"
    "length tids = length (target_tokenizer sample_reader ''You qualify.'') + 2"
    by blast
  then show ?thesis using sample_history_wf by blast
qed

section \<open>The record loop\<close>



















end
